theory Spec2Isabelle
  imports Main "HOL-Library.Word"
begin

unbundle bit_operations_syntax

section \<open>Memory, loads and compiler intrinsics\<close>

text \<open>
  The scanners of \<^verbatim>\<open>search.cc\<close> take a pointer \<^verbatim>\<open>s\<close> and a length \<^verbatim>\<open>len\<close> and read
  memory at \<^verbatim>\<open>s + i\<close>, also outside \<^verbatim>\<open>[s, s + len)\<close>. Memory is therefore modelled
  as a whole address space: \<open>bytes\<close> gives the content of every address, and \<open>readable a n\<close>
  says whether a load of \<open>n\<close> bytes at address \<open>a\<close> may be performed. A load that is not
  permitted is a fault, and the scanner's result is \<open>None\<close>.

  Addresses, \<^verbatim>\<open>int\<close> indices and lengths are unbounded integers. The source computes with
  32-bit \<^verbatim>\<open>int\<close>: \<^verbatim>\<open>len - 1\<close>, the steps \<^verbatim>\<open>i++\<close> and \<^verbatim>\<open>i += 4\<close>, \<^verbatim>\<open>8\<close> or \<^verbatim>\<open>16\<close> taken while
  \<^verbatim>\<open>i < len\<close>, and candidates of at most \<^verbatim>\<open>i + 16\<close>. None of these overflows when
  \<open>0 \<le> len \<le> 2^31 - 17\<close>, and for these lengths the definitions below are the code; for a
  greater or a negative length they are not. The lemmas of the section of proofs are
  facts about the definitions; the theorems that speak about the scanners at an arbitrary
  length state the range \<open>0 \<le> len \<le> 2^31 - 17\<close> as a hypothesis.
  \<^verbatim>\<open>(uintptr_t)p & 15\<close> is written \<open>p mod 16\<close> (likewise for masks 3 and 7).
  Words are little-endian (the code is written for x86 with SSE2).
\<close>

type_synonym byte = "8 word"

record memory =
  bytes :: "int \<Rightarrow> byte"
  readable :: "int \<Rightarrow> nat \<Rightarrow> bool"

definition star :: byte where
  "star = 0x2a"

definition hash :: byte where
  "hash = 0x23"

definition load_bytes :: "memory \<Rightarrow> int \<Rightarrow> nat \<Rightarrow> byte list option" where
  "load_bytes m a n =
     (if readable m a n then Some (map (\<lambda>k. bytes m (a + int k)) [0..<n]) else None)"

definition load_byte :: "memory \<Rightarrow> int \<Rightarrow> byte option" where
  "load_byte m a = (if readable m a 1 then Some (bytes m a) else None)"

text \<open>The first byte of a little-endian word is its least significant one.\<close>

definition le_word :: "byte list \<Rightarrow> 'a::len word" where
  "le_word bs = word_rcat (rev bs)"

definition load_uint32 :: "memory \<Rightarrow> int \<Rightarrow> 32 word option" where
  "load_uint32 m a = map_option le_word (load_bytes m a 4)"

definition load_uint64 :: "memory \<Rightarrow> int \<Rightarrow> 64 word option" where
  "load_uint64 m a = map_option le_word (load_bytes m a 8)"

text \<open>A 128-bit SSE2 register is the list of its 16 byte lanes, lowest address first.\<close>

type_synonym uint128_t = "byte list"

definition load_uint128 :: "memory \<Rightarrow> int \<Rightarrow> uint128_t option" where
  "load_uint128 m a = load_bytes m a 16"

definition mm_set1_epi8 :: "byte \<Rightarrow> uint128_t" where
  "mm_set1_epi8 c = replicate 16 c"

definition mm_cmpeq_epi8 :: "uint128_t \<Rightarrow> uint128_t \<Rightarrow> uint128_t" where
  "mm_cmpeq_epi8 a b = map2 (\<lambda>x y. if x = y then 0xff else 0) a b"

definition mm_movemask_epi8 :: "uint128_t \<Rightarrow> int" where
  "mm_movemask_epi8 v = horner_sum of_bool 2 (map (\<lambda>b. bit b 7) v)"

text \<open>
  \<^verbatim>\<open>__builtin_ffs\<close> and \<^verbatim>\<open>__builtin_ffsll\<close>: one plus the index of the least significant
  set bit of a 32-bit (64-bit) value, and 0 for the value 0.
\<close>

definition ffs_upto :: "nat \<Rightarrow> 'a::semiring_bits \<Rightarrow> int" where
  "ffs_upto n x = (case find (bit x) [0..<n] of None \<Rightarrow> 0 | Some k \<Rightarrow> int k + 1)"

definition builtin_ffs :: "'a::semiring_bits \<Rightarrow> int" where
  "builtin_ffs x = ffs_upto 32 x"

definition builtin_ffsll :: "'a::semiring_bits \<Rightarrow> int" where
  "builtin_ffsll x = ffs_upto 64 x"

section \<open>Bytewise scanners\<close>

text \<open>\<^verbatim>\<open>test_naive\<close>: the loop of lines 21-25, started at \<open>i = 0\<close>.\<close>

function naive_loop :: "memory \<Rightarrow> int \<Rightarrow> int \<Rightarrow> int \<Rightarrow> int option" where
  "naive_loop m s len i =
     (if i < len then
        (case load_byte m (s + i) of
           None \<Rightarrow> None
         | Some c \<Rightarrow> if c = star then Some i else naive_loop m s len (i + 1))
      else Some (- 127))"
  by pat_completeness auto
termination
  by (relation "measure (\<lambda>(m, s, len, i). nat (len - i))") auto

declare naive_loop.simps [simp del]

definition test_naive :: "memory \<Rightarrow> int \<Rightarrow> int \<Rightarrow> int option" where
  "test_naive m s len = naive_loop m s len 0"

text \<open>
  The condition \<^verbatim>\<open>s[i] == '*' && s[i + 1] == '#'\<close> at address \<open>a = s + i\<close>; the second
  byte is read only when the first one is an asterisk.
\<close>

definition pair_at :: "memory \<Rightarrow> int \<Rightarrow> bool option" where
  "pair_at m a =
     (case load_byte m a of
        None \<Rightarrow> None
      | Some c \<Rightarrow>
          if c = star then
            (case load_byte m (a + 1) of None \<Rightarrow> None | Some d \<Rightarrow> Some (d = hash))
          else Some False)"

text \<open>\<^verbatim>\<open>test_twobyte\<close>: \<open>len\<close> is decremented first (line 31), then the loop runs.\<close>

function twobyte_loop :: "memory \<Rightarrow> int \<Rightarrow> int \<Rightarrow> int \<Rightarrow> int option" where
  "twobyte_loop m s len i =
     (if i < len then
        (case pair_at m (s + i) of
           None \<Rightarrow> None
         | Some p \<Rightarrow> if p then Some i else twobyte_loop m s len (i + 1))
      else Some (- 127))"
  by pat_completeness auto
termination
  by (relation "measure (\<lambda>(m, s, len, i). nat (len - i))") auto

declare twobyte_loop.simps [simp del]

definition test_twobyte :: "memory \<Rightarrow> int \<Rightarrow> int \<Rightarrow> int option" where
  "test_twobyte m s len = twobyte_loop m s (len - 1) 0"

section \<open>Bytewise prologues\<close>

text \<open>
  The prologued scanners start with a bytewise loop that either returns from the function
  (\<open>Done\<close>) or is left, by its condition or by \<^verbatim>\<open>break\<close>, with the index \<open>i\<close> (\<open>Aligned\<close>).
  The loop is the same in \<^verbatim>\<open>test_sse2\<close>, \<^verbatim>\<open>test_sse2_and_mycroft4\<close>, \<^verbatim>\<open>test_mycroft4\<close> and
  \<^verbatim>\<open>test_mycroft\<close> up to the alignment \<open>B\<close> (16, 4, 4, 8) it stops at.
\<close>

datatype prologue = Done int | Aligned int

function byte_prologue :: "int \<Rightarrow> memory \<Rightarrow> int \<Rightarrow> int \<Rightarrow> int \<Rightarrow> prologue option" where
  "byte_prologue B m s len i =
     (if i < len then
        (case load_byte m (s + i) of
           None \<Rightarrow> None
         | Some c \<Rightarrow>
             if c = star then Some (Done i)
             else if (s + (i + 1)) mod B = 0 then Some (Aligned (i + 1))
             else byte_prologue B m s len (i + 1))
      else Some (Aligned i))"
  by pat_completeness auto
termination
  by (relation "measure (\<lambda>(B, m, s, len, i). nat (len - i))") auto

declare byte_prologue.simps [simp del]

text \<open>The pair prologue of \<^verbatim>\<open>test_twosse2\<close>, \<^verbatim>\<open>test_twobsse2\<close> (16) and \<^verbatim>\<open>test_mycroft2\<close> (8).\<close>

function pair_prologue :: "int \<Rightarrow> memory \<Rightarrow> int \<Rightarrow> int \<Rightarrow> int \<Rightarrow> prologue option" where
  "pair_prologue B m s len i =
     (if i < len - 1 then
        (case pair_at m (s + i) of
           None \<Rightarrow> None
         | Some p \<Rightarrow>
             if p then Some (Done i)
             else if (s + (i + 1)) mod B = 0 then Some (Aligned (i + 1))
             else pair_prologue B m s len (i + 1))
      else Some (Aligned i))"
  by pat_completeness auto
termination
  by (relation "measure (\<lambda>(B, m, s, len, i). nat (len - i))") auto

declare pair_prologue.simps [simp del]

section \<open>Vector scanners for one byte\<close>

text \<open>\<^verbatim>\<open>test_pure_sse2\<close>: the loop of lines 51-66, with the current \<^verbatim>\<open>alignment_mask\<close>.\<close>

function pure_sse2_loop :: "memory \<Rightarrow> int \<Rightarrow> int \<Rightarrow> int \<Rightarrow> int \<Rightarrow> int option" where
  "pure_sse2_loop m s len alignment_mask i =
     (if i < len then
        (case load_uint128 m (s + i) of
           None \<Rightarrow> None
         | Some raw \<Rightarrow>
             let comparison = mm_cmpeq_epi8 raw (mm_set1_epi8 star);
                 bits = mm_movemask_epi8 comparison AND alignment_mask
             in if bits \<noteq> 0 then
                  (let answer = i + builtin_ffs bits - 1
                   in if answer \<ge> len then Some (- 127) else Some answer)
                else pure_sse2_loop m s len 0xffff (i + 16))
      else Some (- 127))"
  by pat_completeness auto
termination
  by (relation "measure (\<lambda>(m, s, len, mask, i). nat (len - i))") auto

declare pure_sse2_loop.simps [simp del]

definition test_pure_sse2 :: "memory \<Rightarrow> int \<Rightarrow> int \<Rightarrow> int option" where
  "test_pure_sse2 m s len =
     (let last_bits = s mod 16;
          alignment_mask = push_bit (nat last_bits) 0xffff
      in pure_sse2_loop m s len alignment_mask (- last_bits))"

text \<open>The block loop of \<^verbatim>\<open>test_sse2\<close> (lines 85-99) and of \<^verbatim>\<open>test_sse2_and_mycroft4\<close>
  (lines 135-149).\<close>

function sse2_loop :: "memory \<Rightarrow> int \<Rightarrow> int \<Rightarrow> int \<Rightarrow> int option" where
  "sse2_loop m s len i =
     (if i < len then
        (case load_uint128 m (s + i) of
           None \<Rightarrow> None
         | Some raw \<Rightarrow>
             let comparison = mm_cmpeq_epi8 raw (mm_set1_epi8 star);
                 bits = mm_movemask_epi8 comparison
             in if bits \<noteq> 0 then
                  (let answer = i + builtin_ffs bits - 1
                   in if answer \<ge> len then Some (- 127) else Some answer)
                else sse2_loop m s len (i + 16))
      else Some (- 127))"
  by pat_completeness auto
termination
  by (relation "measure (\<lambda>(m, s, len, i). nat (len - i))") auto

declare sse2_loop.simps [simp del]

definition test_sse2 :: "memory \<Rightarrow> int \<Rightarrow> int \<Rightarrow> int option" where
  "test_sse2 m s len =
     (case byte_prologue 16 m s len 0 of
        None \<Rightarrow> None
      | Some (Done r) \<Rightarrow> Some r
      | Some (Aligned i) \<Rightarrow> if i \<ge> len then Some (- 127) else sse2_loop m s len i)"

section \<open>Word-trick scanners for one byte\<close>

definition mask32 :: "32 word" where
  "mask32 = 0x2a2a2a2a"

definition highs32 :: "32 word" where
  "highs32 = 0x80808080"

definition ones32 :: "32 word" where
  "ones32 = 0x01010101"

definition mask_star :: "64 word" where
  "mask_star = 0x2a2a2a2a2a2a2a2a"

definition mask_hash :: "64 word" where
  "mask_hash = 0x2323232323232323"

definition highs64 :: "64 word" where
  "highs64 = 0x8080808080808080"

definition ones64 :: "64 word" where
  "ones64 = 0x0101010101010101"

text \<open>\<^verbatim>\<open>test_mycroft4\<close>: the block loop of lines 275-283.\<close>

function mycroft4_loop :: "memory \<Rightarrow> int \<Rightarrow> int \<Rightarrow> int \<Rightarrow> int option" where
  "mycroft4_loop m s len i =
     (if i < len then
        (case load_uint32 m (s + i) of
           None \<Rightarrow> None
         | Some w \<Rightarrow>
             let raw = w XOR mask32;
                 raw' = (raw - ones32) AND NOT raw AND highs32
             in if raw' \<noteq> 0 then
                  (let answer = i + drop_bit 3 (builtin_ffs raw') - 1
                   in if answer \<ge> len then Some (- 127) else Some answer)
                else mycroft4_loop m s len (i + 4))
      else Some (- 127))"
  by pat_completeness auto
termination
  by (relation "measure (\<lambda>(m, s, len, i). nat (len - i))") auto

declare mycroft4_loop.simps [simp del]

definition test_mycroft4 :: "memory \<Rightarrow> int \<Rightarrow> int \<Rightarrow> int option" where
  "test_mycroft4 m s len =
     (case byte_prologue 4 m s len 0 of
        None \<Rightarrow> None
      | Some (Done r) \<Rightarrow> Some r
      | Some (Aligned i) \<Rightarrow> if i \<ge> len then Some (- 127) else mycroft4_loop m s len i)"

text \<open>\<^verbatim>\<open>test_pure_mycroft4\<close>: the loop of lines 298-307, with the current \<^verbatim>\<open>highs\<close>.\<close>

function pure_mycroft4_loop :: "memory \<Rightarrow> int \<Rightarrow> int \<Rightarrow> 32 word \<Rightarrow> int \<Rightarrow> int option" where
  "pure_mycroft4_loop m s len highs i =
     (if i < len then
        (case load_uint32 m (s + i) of
           None \<Rightarrow> None
         | Some w \<Rightarrow>
             let raw = w XOR mask32;
                 raw' = (raw - ones32) AND NOT raw AND highs
             in if raw' \<noteq> 0 then
                  (let answer = i + drop_bit 3 (builtin_ffs raw') - 1
                   in if answer \<ge> len then Some (- 127) else Some answer)
                else pure_mycroft4_loop m s len highs32 (i + 4))
      else Some (- 127))"
  by pat_completeness auto
termination
  by (relation "measure (\<lambda>(m, s, len, highs, i). nat (len - i))") auto

declare pure_mycroft4_loop.simps [simp del]

definition test_pure_mycroft4 :: "memory \<Rightarrow> int \<Rightarrow> int \<Rightarrow> int option" where
  "test_pure_mycroft4 m s len =
     (let last_bits = s mod 4;
          highs = push_bit (nat (push_bit 3 last_bits)) highs32
      in pure_mycroft4_loop m s len highs (- last_bits))"

text \<open>\<^verbatim>\<open>test_mycroft\<close>: the block loop of lines 330-338.\<close>

function mycroft_loop :: "memory \<Rightarrow> int \<Rightarrow> int \<Rightarrow> int \<Rightarrow> int option" where
  "mycroft_loop m s len i =
     (if i < len then
        (case load_uint64 m (s + i) of
           None \<Rightarrow> None
         | Some w \<Rightarrow>
             let raw = w XOR mask_star;
                 raw' = (raw - ones64) AND NOT raw AND highs64
             in if raw' \<noteq> 0 then
                  (let answer = i + drop_bit 3 (builtin_ffsll raw') - 1
                   in if answer \<ge> len then Some (- 127) else Some answer)
                else mycroft_loop m s len (i + 8))
      else Some (- 127))"
  by pat_completeness auto
termination
  by (relation "measure (\<lambda>(m, s, len, i). nat (len - i))") auto

declare mycroft_loop.simps [simp del]

definition test_mycroft :: "memory \<Rightarrow> int \<Rightarrow> int \<Rightarrow> int option" where
  "test_mycroft m s len =
     (case byte_prologue 8 m s len 0 of
        None \<Rightarrow> None
      | Some (Done r) \<Rightarrow> Some r
      | Some (Aligned i) \<Rightarrow> if i \<ge> len then Some (- 127) else mycroft_loop m s len i)"

text \<open>\<^verbatim>\<open>test_pure_mycroft\<close>: the loop of lines 355-364, with the current \<^verbatim>\<open>highs\<close>.\<close>

function pure_mycroft_loop :: "memory \<Rightarrow> int \<Rightarrow> int \<Rightarrow> 64 word \<Rightarrow> int \<Rightarrow> int option" where
  "pure_mycroft_loop m s len highs i =
     (if i < len then
        (case load_uint64 m (s + i) of
           None \<Rightarrow> None
         | Some w \<Rightarrow>
             let raw = w XOR mask_star;
                 raw' = (raw - ones64) AND NOT raw AND highs
             in if raw' \<noteq> 0 then
                  (let answer = i + drop_bit 3 (builtin_ffsll raw') - 1
                   in if answer \<ge> len then Some (- 127) else Some answer)
                else pure_mycroft_loop m s len highs64 (i + 8))
      else Some (- 127))"
  by pat_completeness auto
termination
  by (relation "measure (\<lambda>(m, s, len, highs, i). nat (len - i))") auto

declare pure_mycroft_loop.simps [simp del]

definition test_pure_mycroft :: "memory \<Rightarrow> int \<Rightarrow> int \<Rightarrow> int option" where
  "test_pure_mycroft m s len =
     (let last_bits = s mod 8;
          highs = push_bit (nat (push_bit 3 last_bits)) highs64
      in pure_mycroft_loop m s len highs (- last_bits))"

text \<open>
  \<^verbatim>\<open>test_sse2_and_mycroft4\<close>: after the bytewise prologue, the 4-byte loop of lines 122-132
  returns from the function (\<open>Done\<close>) or is left with \<open>i\<close> (\<open>Aligned\<close>); then the 16-byte
  loop runs.
\<close>

function mycroft4_until16 :: "memory \<Rightarrow> int \<Rightarrow> int \<Rightarrow> int \<Rightarrow> prologue option" where
  "mycroft4_until16 m s len i =
     (if i < len then
        (case load_uint32 m (s + i) of
           None \<Rightarrow> None
         | Some w \<Rightarrow>
             let raw = w XOR mask32;
                 raw' = (raw - ones32) AND NOT raw AND highs32
             in if raw' \<noteq> 0 then
                  (let answer = i + drop_bit 3 (builtin_ffs raw') - 1
                   in if answer \<ge> len then Some (Done (- 127)) else Some (Done answer))
                else if (s + (i + 4)) mod 16 = 0 then Some (Aligned (i + 4))
                else mycroft4_until16 m s len (i + 4))
      else Some (Aligned i))"
  by pat_completeness auto
termination
  by (relation "measure (\<lambda>(m, s, len, i). nat (len - i))") auto

declare mycroft4_until16.simps [simp del]

definition test_sse2_and_mycroft4 :: "memory \<Rightarrow> int \<Rightarrow> int \<Rightarrow> int option" where
  "test_sse2_and_mycroft4 m s len =
     (case byte_prologue 4 m s len 0 of
        None \<Rightarrow> None
      | Some (Done r) \<Rightarrow> Some r
      | Some (Aligned i) \<Rightarrow>
          if i \<ge> len then Some (- 127)
          else
            (case mycroft4_until16 m s len i of
               None \<Rightarrow> None
             | Some (Done r) \<Rightarrow> Some r
             | Some (Aligned i') \<Rightarrow>
                 if i' \<ge> len then Some (- 127) else sse2_loop m s len i'))"

section \<open>Pair scanners\<close>

text \<open>
  \<^verbatim>\<open>test_twosse2\<close>. The result records whether the function returned through the
  cross-block branch of line 175 (\<open>Via_straddle\<close>) or through any other \<^verbatim>\<open>return\<close>.
\<close>

datatype returned = Via_straddle int | Via_other int

fun returned_value :: "returned \<Rightarrow> int" where
  "returned_value (Via_straddle r) = r"
| "returned_value (Via_other r) = r"

function twosse2_loop :: "memory \<Rightarrow> int \<Rightarrow> int \<Rightarrow> int \<Rightarrow> int \<Rightarrow> returned option" where
  "twosse2_loop m s len prev i =
     (if i < len then
        (case load_uint128 m (s + i) of
           None \<Rightarrow> None
         | Some raw \<Rightarrow>
             let stars = mm_movemask_epi8 (mm_cmpeq_epi8 raw (mm_set1_epi8 star));
                 hashes = mm_movemask_epi8 (mm_cmpeq_epi8 raw (mm_set1_epi8 hash))
             in if prev AND 0x8000 \<noteq> 0 \<and> hashes AND 1 \<noteq> 0 then Some (Via_straddle (i - 1))
                else
                  (let combined = push_bit 1 stars AND hashes
                   in if combined \<noteq> 0 then
                        (let result = i + builtin_ffs combined - 2
                         in if result \<ge> len - 1 then Some (Via_other (- 127))
                            else Some (Via_other result))
                      else twosse2_loop m s len stars (i + 16)))
      else Some (Via_other (- 127)))"
  by pat_completeness auto
termination
  by (relation "measure (\<lambda>(m, s, len, prev, i). nat (len - i))") auto

declare twosse2_loop.simps [simp del]

definition twosse2_returned :: "memory \<Rightarrow> int \<Rightarrow> int \<Rightarrow> returned option" where
  "twosse2_returned m s len =
     (case pair_prologue 16 m s len 0 of
        None \<Rightarrow> None
      | Some (Done r) \<Rightarrow> Some (Via_other r)
      | Some (Aligned i) \<Rightarrow>
          if i \<ge> len - 1 then Some (Via_other (- 127))
          else
            (case load_byte m (s + (i - 1)) of
               None \<Rightarrow> None
             | Some c \<Rightarrow> twosse2_loop m s len (push_bit 15 (of_bool (c = star))) i))"

definition test_twosse2 :: "memory \<Rightarrow> int \<Rightarrow> int \<Rightarrow> int option" where
  "test_twosse2 m s len = map_option returned_value (twosse2_returned m s len)"

text \<open>\<^verbatim>\<open>test_twobsse2\<close>: the loop of lines 205-218, with the current \<^verbatim>\<open>stars\<close>.\<close>

function twobsse2_loop :: "memory \<Rightarrow> int \<Rightarrow> int \<Rightarrow> int \<Rightarrow> int \<Rightarrow> int option" where
  "twobsse2_loop m s len stars i =
     (if i < len then
        (case load_uint128 m (s + i) of
           None \<Rightarrow> None
         | Some raw \<Rightarrow>
             let stars' = stars + push_bit 1 (mm_movemask_epi8 (mm_cmpeq_epi8 raw (mm_set1_epi8 star)));
                 hashes = mm_movemask_epi8 (mm_cmpeq_epi8 raw (mm_set1_epi8 hash))
             in if hashes AND stars' \<noteq> 0 then
                  (let result = i + builtin_ffs (hashes AND stars') - 2
                   in if result \<ge> len - 1 then Some (- 127) else Some result)
                else twobsse2_loop m s len (drop_bit 16 stars') (i + 16))
      else Some (- 127))"
  by pat_completeness auto
termination
  by (relation "measure (\<lambda>(m, s, len, stars, i). nat (len - i))") auto

declare twobsse2_loop.simps [simp del]

definition test_twobsse2 :: "memory \<Rightarrow> int \<Rightarrow> int \<Rightarrow> int option" where
  "test_twobsse2 m s len =
     (case pair_prologue 16 m s len 0 of
        None \<Rightarrow> None
      | Some (Done r) \<Rightarrow> Some r
      | Some (Aligned i) \<Rightarrow>
          if i \<ge> len - 1 then Some (- 127)
          else
            (case load_byte m (s + (i - 1)) of
               None \<Rightarrow> None
             | Some c \<Rightarrow> twobsse2_loop m s len (of_bool (c = star)) i))"

text \<open>\<^verbatim>\<open>test_pure_twobsse2\<close>: the loop of lines 233-248.\<close>

function pure_twobsse2_loop ::
  "memory \<Rightarrow> int \<Rightarrow> int \<Rightarrow> int \<Rightarrow> int \<Rightarrow> int \<Rightarrow> int option" where
  "pure_twobsse2_loop m s len alignment_mask stars i =
     (if i < len then
        (case load_uint128 m (s + i) of
           None \<Rightarrow> None
         | Some raw \<Rightarrow>
             let stars' = stars + push_bit 1
                   (mm_movemask_epi8 (mm_cmpeq_epi8 raw (mm_set1_epi8 star)) AND alignment_mask);
                 hashes = mm_movemask_epi8 (mm_cmpeq_epi8 raw (mm_set1_epi8 hash));
                 combined = hashes AND stars'
             in if combined \<noteq> 0 then
                  (let result = i + builtin_ffs combined - 2
                   in if result \<ge> len - 1 then Some (- 127) else Some result)
                else pure_twobsse2_loop m s len 0xffff (drop_bit 16 stars') (i + 16))
      else Some (- 127))"
  by pat_completeness auto
termination
  by (relation "measure (\<lambda>(m, s, len, mask, stars, i). nat (len - i))") auto

declare pure_twobsse2_loop.simps [simp del]

definition test_pure_twobsse2 :: "memory \<Rightarrow> int \<Rightarrow> int \<Rightarrow> int option" where
  "test_pure_twobsse2 m s len =
     (let last_bits = s mod 16;
          alignment_mask = push_bit (nat last_bits) 0xffff
      in pure_twobsse2_loop m s len alignment_mask 0 (- last_bits))"

text \<open>\<^verbatim>\<open>test_mycroft2\<close>: the loop of lines 389-400, with its unaligned load of \<^verbatim>\<open>s + i - 1\<close>.\<close>

function mycroft2_loop :: "memory \<Rightarrow> int \<Rightarrow> int \<Rightarrow> int \<Rightarrow> int option" where
  "mycroft2_loop m s len i =
     (if i < len then
        (case load_uint64 m (s + i - 1) of
           None \<Rightarrow> None
         | Some w \<Rightarrow>
             (case load_uint64 m (s + i) of
                None \<Rightarrow> None
              | Some w2 \<Rightarrow>
                  let raw = w XOR mask_star;
                      raw2 = w2 XOR mask_hash;
                      raw' = (raw - ones64) AND NOT raw;
                      raw2' = (raw2 - ones64) AND NOT raw2;
                      combined = raw' AND raw2' AND highs64
                  in if combined \<noteq> 0 then
                       (let result = (i - 1) + drop_bit 3 (builtin_ffsll combined) - 1
                        in if result \<ge> len - 1 then Some (- 127) else Some result)
                     else mycroft2_loop m s len (i + 8)))
      else Some (- 127))"
  by pat_completeness auto
termination
  by (relation "measure (\<lambda>(m, s, len, i). nat (len - i))") auto

declare mycroft2_loop.simps [simp del]

definition test_mycroft2 :: "memory \<Rightarrow> int \<Rightarrow> int \<Rightarrow> int option" where
  "test_mycroft2 m s len =
     (case pair_prologue 8 m s len 0 of
        None \<Rightarrow> None
      | Some (Done r) \<Rightarrow> Some r
      | Some (Aligned i) \<Rightarrow> if i \<ge> len - 1 then Some (- 127) else mycroft2_loop m s len i)"

text \<open>\<^verbatim>\<open>test_pure_mycroft2\<close>: the loop of lines 419-434.\<close>

function pure_mycroft2_loop ::
  "memory \<Rightarrow> int \<Rightarrow> int \<Rightarrow> 64 word \<Rightarrow> 64 word \<Rightarrow> int \<Rightarrow> int option" where
  "pure_mycroft2_loop m s len highs stars_low i =
     (if i < len then
        (case load_uint64 m (s + i) of
           None \<Rightarrow> None
         | Some raw \<Rightarrow>
             let new_stars = raw XOR mask_star;
                 hashes = raw XOR mask_hash;
                 new_stars' = ((new_stars - ones64) AND NOT new_stars) AND highs;
                 hashes' = (hashes - ones64) AND NOT hashes;
                 stars_low' = stars_low + push_bit 8 new_stars';
                 combined = stars_low' AND hashes'
             in if combined \<noteq> 0 then
                  (let result = (i - 1) + drop_bit 3 (builtin_ffsll combined) - 1
                   in if result \<ge> len - 1 then Some (- 127) else Some result)
                else pure_mycroft2_loop m s len highs64 (drop_bit 56 new_stars') (i + 8))
      else Some (- 127))"
  by pat_completeness auto
termination
  by (relation "measure (\<lambda>(m, s, len, highs, stars_low, i). nat (len - i))") auto

declare pure_mycroft2_loop.simps [simp del]

definition test_pure_mycroft2 :: "memory \<Rightarrow> int \<Rightarrow> int \<Rightarrow> int option" where
  "test_pure_mycroft2 m s len =
     (let last_bits = s mod 8;
          highs = push_bit (nat (push_bit 3 last_bits)) highs64
      in pure_mycroft2_loop m s len highs 0 (- last_bits))"

section \<open>Concrete memories\<close>

text \<open>A memory in which every load is permitted, and the bytes \<open>bs\<close> laid out from address
  \<open>base\<close> on (zero elsewhere).\<close>

definition flat :: "(int \<Rightarrow> byte) \<Rightarrow> memory" where
  "flat f = \<lparr>bytes = f, readable = \<lambda>a n. True\<rparr>"

definition place :: "int \<Rightarrow> byte list \<Rightarrow> int \<Rightarrow> byte" where
  "place base bs a =
     (if base \<le> a \<and> a < base + int (length bs) then bs ! nat (a - base) else 0)"

text \<open>The buffer of \<^verbatim>\<open>set_up\<close> in \<^verbatim>\<open>search.cc\<close>: \<^verbatim>\<open>small\<close> and \<^verbatim>\<open>small_length = strlen(sm)\<close>.\<close>

definition text_bytes :: "string \<Rightarrow> byte list" where
  "text_bytes cs = map of_char cs"

definition small :: "byte list" where
  "small = text_bytes ''Now is the time *# for all good men''"

definition small_length :: int where
  "small_length = int (length small)"

section \<open>Specification vocabulary\<close>

subsection \<open>Match results\<close>

text \<open>
  \<open>smallest_index P n r\<close>: \<open>r\<close> is the smallest index in \<open>[0, n)\<close> that satisfies \<open>P\<close>.
  \<open>match_result P n r\<close>: \<open>r\<close> is that index when one exists, and the sentinel \<open>-127\<close>
  otherwise. For a single byte \<open>P\<close> is \<open>star_at m s\<close> and \<open>n\<close> the length; for the pair
  \<open>P\<close> is \<open>star_hash_at m s\<close> and \<open>n\<close> is the length minus one, so that \<open>i + 1\<close> is in
  bounds as well.
\<close>

definition smallest_index :: "(int \<Rightarrow> bool) \<Rightarrow> int \<Rightarrow> int \<Rightarrow> bool" where
  "smallest_index P n r \<longleftrightarrow> 0 \<le> r \<and> r < n \<and> P r \<and> (\<forall>j\<in>{0..<r}. \<not> P j)"

definition match_result :: "(int \<Rightarrow> bool) \<Rightarrow> int \<Rightarrow> int \<Rightarrow> bool" where
  "match_result P n r \<longleftrightarrow> (if \<exists>i\<in>{0..<n}. P i then smallest_index P n r else r = - 127)"

definition star_at :: "memory \<Rightarrow> int \<Rightarrow> int \<Rightarrow> bool" where
  "star_at m s i \<longleftrightarrow> bytes m (s + i) = star"

definition star_hash_at :: "memory \<Rightarrow> int \<Rightarrow> int \<Rightarrow> bool" where
  "star_hash_at m s i \<longleftrightarrow> bytes m (s + i) = star \<and> bytes m (s + i + 1) = hash"

subsection \<open>Load policies\<close>

text \<open>
  \<open>in_block B s len a n\<close>: the \<open>n\<close> bytes loaded at address \<open>a\<close> lie inside one aligned
  block of \<open>B\<close> bytes that also holds a byte of the buffer, that is an address \<open>s + j\<close>
  with \<open>0 \<le> j < len\<close>. \<open>bytes_in_blocks\<close> asks this of every loaded byte separately, so
  that the load may span two such blocks. \<open>guarded p f\<close> is the memory with content \<open>f\<close>
  in which exactly the loads permitted by \<open>p\<close> do not fault.

  \<open>block_load B s len a n\<close> is the policy of the scanners with block size \<open>B\<close>, one
  condition for every size of load: the \<open>n\<close> bytes loaded at \<open>a\<close> are one aligned unit of
  \<open>n\<close> bytes that holds a byte of the buffer (a byte load reads a byte of the buffer, a
  4-byte load an aligned 32-bit section covered by the buffer, and so on), and they lie
  inside an aligned block of \<open>B\<close> bytes that holds a byte of the buffer. \<open>mycroft2_load\<close>
  permits in addition the 8-byte loads each byte of which lies in such a block of 8 bytes.
\<close>

definition in_block :: "int \<Rightarrow> int \<Rightarrow> int \<Rightarrow> int \<Rightarrow> nat \<Rightarrow> bool" where
  "in_block B s len a n \<longleftrightarrow>
     (\<exists>j\<in>{0..<len}. a div B = (s + j) div B \<and> (a + int n - 1) div B = (s + j) div B)"

definition bytes_in_blocks :: "int \<Rightarrow> int \<Rightarrow> int \<Rightarrow> int \<Rightarrow> nat \<Rightarrow> bool" where
  "bytes_in_blocks B s len a n \<longleftrightarrow>
     (\<forall>k\<in>{0..<int n}. \<exists>j\<in>{0..<len}. (a + k) div B = (s + j) div B)"

definition guarded :: "(int \<Rightarrow> nat \<Rightarrow> bool) \<Rightarrow> (int \<Rightarrow> byte) \<Rightarrow> memory" where
  "guarded p f = \<lparr>bytes = f, readable = p\<rparr>"

definition block_load :: "int \<Rightarrow> int \<Rightarrow> int \<Rightarrow> int \<Rightarrow> nat \<Rightarrow> bool" where
  "block_load B s len a n \<longleftrightarrow> in_block (int n) s len a n \<and> in_block B s len a n"

definition mycroft2_load :: "int \<Rightarrow> int \<Rightarrow> int \<Rightarrow> nat \<Rightarrow> bool" where
  "mycroft2_load s len a n \<longleftrightarrow>
     block_load 8 s len a n \<or> (n = 8 \<and> bytes_in_blocks 8 s len a n)"

subsection \<open>The word trick\<close>

text \<open>
  The formula of lines 276-277 (32 bits) and 331-332 (64 bits), with the mask built from
  an arbitrary target byte \<open>t\<close>; for the asterisk \<open>repeat_byte star\<close> is the constant
  \<^verbatim>\<open>0x2a2a2a2a\<close> of the source. \<open>lane w k\<close> is byte \<open>k\<close> of the word (byte 0 at the lowest
  address), \<open>flagged x k\<close> the top bit of that byte in a mask, and \<open>lowest_flagged x k\<close>
  says that \<open>k\<close> is the lane that \<^verbatim>\<open>__builtin_ffs\<close> finds.
\<close>

definition lane :: "'a::len word \<Rightarrow> nat \<Rightarrow> byte" where
  "lane w k = ucast (drop_bit (8 * k) w)"

definition flagged :: "'a::len word \<Rightarrow> nat \<Rightarrow> bool" where
  "flagged x k \<longleftrightarrow> bit x (8 * k + 7)"

definition lowest_flagged :: "'a::len word \<Rightarrow> nat \<Rightarrow> bool" where
  "lowest_flagged x k \<longleftrightarrow> flagged x k \<and> (\<forall>j<k. \<not> flagged x j)"

definition repeat_byte :: "byte \<Rightarrow> 'a::len word" where
  "repeat_byte t = le_word (replicate (LENGTH('a) div 8) t)"

definition word_trick32 :: "32 word \<Rightarrow> byte \<Rightarrow> 32 word" where
  "word_trick32 w t = (let raw = w XOR repeat_byte t in (raw - ones32) AND NOT raw AND highs32)"

definition word_trick64 :: "64 word \<Rightarrow> byte \<Rightarrow> 64 word" where
  "word_trick64 w t = (let raw = w XOR repeat_byte t in (raw - ones64) AND NOT raw AND highs64)"

text \<open>
  \<open>chain w t k\<close>: lane \<open>k\<close> of \<open>w\<close> holds the target, or it holds the target with its lowest
  bit flipped and the lane below it is itself in such a chain.
\<close>

fun chain :: "'a::len word \<Rightarrow> byte \<Rightarrow> nat \<Rightarrow> bool" where
  "chain w t 0 = (lane w 0 = t)"
| "chain w t (Suc k) = (lane w (Suc k) = t \<or> (lane w (Suc k) = t XOR 1 \<and> chain w t k))"

text \<open>
  For the proofs: the number \<^verbatim>\<open>0x01...01\<close> with \<open>n\<close> bytes, the borrow that the
  subtraction of it from \<open>X\<close> passes into byte \<open>k\<close>, and the chain above for target 0.
\<close>

fun ones_int :: "nat \<Rightarrow> int" where
  "ones_int 0 = 0"
| "ones_int (Suc n) = 1 + 256 * ones_int n"

fun borrow :: "int \<Rightarrow> nat \<Rightarrow> bool" where
  "borrow X 0 = False"
| "borrow X (Suc k) =
     (X div 256 ^ k mod 256 = 0 \<or> (X div 256 ^ k mod 256 = 1 \<and> borrow X k))"

fun zero_chain :: "'a::len word \<Rightarrow> nat \<Rightarrow> bool" where
  "zero_chain x 0 = (lane x 0 = 0)"
| "zero_chain x (Suc k) = (lane x (Suc k) = 0 \<or> (lane x (Suc k) = 1 \<and> zero_chain x k))"

subsection \<open>Loop invariants\<close>

text \<open>
  \<open>prologue_ok P n s B i0 p\<close>: what a bytewise prologue started at index \<open>i0\<close> hands over.
  Either it returned, and the value is the match result; or it stopped at an index \<open>i\<close>
  before which nothing matches, and which, when it is still below \<open>n\<close>, is past \<open>i0\<close> and
  aligned to \<open>B\<close>.
\<close>

definition prologue_ok :: "(int \<Rightarrow> bool) \<Rightarrow> int \<Rightarrow> int \<Rightarrow> int \<Rightarrow> int \<Rightarrow> prologue \<Rightarrow> bool" where
  "prologue_ok P n s B i0 p =
     (case p of
        Done r \<Rightarrow> match_result P n r
      | Aligned i \<Rightarrow> i0 \<le> i \<and> (\<forall>j\<in>{0..<i}. \<not> P j) \<and> (i < n \<longrightarrow> i0 < i \<and> (s + i) mod B = 0))"

text \<open>
  \<open>lanes_from x n i\<close>: every bit of the mask \<open>x\<close> is the top bit of one of its first \<open>n\<close>
  lanes, and of a lane \<open>k\<close> with \<open>0 \<le> i + k\<close> only: seen from a block that starts at index
  \<open>i\<close>, no lane before the buffer is flagged.
\<close>

definition lanes_from :: "'a::len word \<Rightarrow> nat \<Rightarrow> int \<Rightarrow> bool" where
  "lanes_from x n i \<longleftrightarrow> (\<forall>p. bit x p \<longrightarrow> (\<exists>k<n. p = 8 * k + 7 \<and> 0 \<le> i + int k))"

section \<open>Proofs\<close>

subsection \<open>Match results\<close>

lemma match_result_found:
  "0 \<le> r \<Longrightarrow> r < n \<Longrightarrow> P r \<Longrightarrow> \<forall>j\<in>{0..<r}. \<not> P j \<Longrightarrow> match_result P n r"
  unfolding match_result_def smallest_index_def by auto

lemma match_result_none:
  "\<forall>j\<in>{0..<n}. \<not> P j \<Longrightarrow> match_result P n (- 127)"
  unfolding match_result_def by auto

lemma none_before_Suc:
  "\<forall>j\<in>{0..<i}. \<not> P j \<Longrightarrow> \<not> P i \<Longrightarrow> \<forall>j\<in>{0..<i + 1}. \<not> P (j::int)"
proof
  fix j assume a: "\<forall>j\<in>{0..<i}. \<not> P j" "\<not> P i" "j \<in> {0..<i + 1}"
  then have "j \<in> {0..<i} \<or> j = i" by auto
  with a show "\<not> P j" by auto
qed

lemma match_result_unique:
  assumes "match_result P n r" "0 \<le> i" "i < n" "P i" "\<forall>j\<in>{0..<i}. \<not> P j"
  shows "r = i"
proof -
  from assms have "\<exists>i\<in>{0..<n}. P i" by auto
  with assms(1) have r: "0 \<le> r" "r < n" "P r" "\<forall>j\<in>{0..<r}. \<not> P j"
    by (simp_all add: match_result_def smallest_index_def)
  show ?thesis
  proof (rule ccontr)
    assume "r \<noteq> i"
    then consider "r < i" | "i < r" by linarith
    then show False
    proof cases
      case 1 with r assms(5) show False by auto
    next
      case 2 with assms r(4) show False by auto
    qed
  qed
qed

lemma match_result_absent:
  "match_result P n r \<Longrightarrow> \<forall>j\<in>{0..<n}. \<not> P j \<Longrightarrow> r = - 127"
  by (simp add: match_result_def)

subsection \<open>The bytewise scanners\<close>

lemma naive_loop_correct:
  assumes "\<forall>j\<in>{0..<len}. readable m (s + j) 1"
  shows "0 \<le> i \<Longrightarrow> \<forall>j\<in>{0..<i}. \<not> star_at m s j \<Longrightarrow>
     \<exists>r. naive_loop m s len i = Some r \<and> match_result (star_at m s) len r"
proof (induction "nat (len - i)" arbitrary: i rule: less_induct)
  case less
  show ?case
  proof (cases "i < len")
    case False
    with less.prems have "\<forall>j\<in>{0..<len}. \<not> star_at m s j" by auto
    with False show ?thesis
      by (simp add: naive_loop.simps [of m s len i] match_result_none)
  next
    case True
    with less.prems assms have ld: "load_byte m (s + i) = Some (bytes m (s + i))"
      by (simp add: load_byte_def)
    show ?thesis
    proof (cases "star_at m s i")
      case True
      with \<open>i < len\<close> ld less.prems show ?thesis
        by (simp add: naive_loop.simps [of m s len i] match_result_found star_at_def)
    next
      case False
      from \<open>i < len\<close> have "nat (len - (i + 1)) < nat (len - i)" by simp
      moreover from less.prems have "0 \<le> i + 1" by simp
      moreover from less.prems False have "\<forall>j\<in>{0..<i + 1}. \<not> star_at m s j"
        by (intro none_before_Suc)
      ultimately have "\<exists>r. naive_loop m s len (i + 1) = Some r \<and> match_result (star_at m s) len r"
        by (rule less.hyps)
      with True ld False show ?thesis
        by (simp add: naive_loop.simps [of m s len i] star_at_def)
    qed
  qed
qed

lemma pair_at_readable:
  "readable m a 1 \<Longrightarrow> readable m (a + 1) 1 \<Longrightarrow>
     pair_at m a = Some (bytes m a = star \<and> bytes m (a + 1) = hash)"
  by (simp add: pair_at_def load_byte_def)

lemma twobyte_loop_correct:
  assumes "\<forall>j\<in>{0..<n + 1}. readable m (s + j) 1"
  shows "0 \<le> i \<Longrightarrow> \<forall>j\<in>{0..<i}. \<not> star_hash_at m s j \<Longrightarrow>
     \<exists>r. twobyte_loop m s n i = Some r \<and> match_result (star_hash_at m s) n r"
proof (induction "nat (n - i)" arbitrary: i rule: less_induct)
  case less
  show ?case
  proof (cases "i < n")
    case False
    with less.prems have "\<forall>j\<in>{0..<n}. \<not> star_hash_at m s j" by auto
    with False show ?thesis
      by (simp add: twobyte_loop.simps [of m s n i] match_result_none)
  next
    case True
    with less.prems assms have "readable m (s + i) 1" "readable m (s + (i + 1)) 1"
      by auto
    then have ld: "pair_at m (s + i) = Some (star_hash_at m s i)"
      by (simp add: pair_at_readable star_hash_at_def add.assoc)
    show ?thesis
    proof (cases "star_hash_at m s i")
      case True
      with \<open>i < n\<close> ld less.prems show ?thesis
        by (simp add: twobyte_loop.simps [of m s n i] match_result_found)
    next
      case False
      from \<open>i < n\<close> have "nat (n - (i + 1)) < nat (n - i)" by simp
      moreover from less.prems have "0 \<le> i + 1" by simp
      moreover from less.prems False have "\<forall>j\<in>{0..<i + 1}. \<not> star_hash_at m s j"
        by (intro none_before_Suc)
      ultimately have "\<exists>r. twobyte_loop m s n (i + 1) = Some r \<and> match_result (star_hash_at m s) n r"
        by (rule less.hyps)
      with True ld False show ?thesis
        by (simp add: twobyte_loop.simps [of m s n i])
    qed
  qed
qed

subsection \<open>Clamping of candidates\<close>

lemma byte_prologue_Done_bound:
  "byte_prologue B m s len i = Some (Done r) \<Longrightarrow> r < len"
proof (induction "nat (len - i)" arbitrary: i rule: less_induct)
  case less
  from less.prems show ?case
    by (subst (asm) byte_prologue.simps)
      (auto split: if_splits option.splits dest: less.hyps [rotated])
qed

lemma pair_prologue_Done_bound:
  "pair_prologue B m s len i = Some (Done r) \<Longrightarrow> r + 1 < len"
proof (induction "nat (len - i)" arbitrary: i rule: less_induct)
  case less
  from less.prems show ?case
    by (subst (asm) pair_prologue.simps)
      (auto split: if_splits option.splits dest: less.hyps [rotated])
qed

lemma pure_sse2_loop_clamped:
  "pure_sse2_loop m s len am i = Some r \<Longrightarrow> r = - 127 \<or> r < len"
proof (induction "nat (len - i)" arbitrary: i am rule: less_induct)
  case less
  from less.prems show ?case
    by (subst (asm) pure_sse2_loop.simps)
      (auto simp: Let_def split: if_splits option.splits dest: less.hyps [rotated])
qed

lemma sse2_loop_clamped:
  "sse2_loop m s len i = Some r \<Longrightarrow> r = - 127 \<or> r < len"
proof (induction "nat (len - i)" arbitrary: i rule: less_induct)
  case less
  from less.prems show ?case
    by (subst (asm) sse2_loop.simps)
      (auto simp: Let_def split: if_splits option.splits dest: less.hyps [rotated])
qed

lemma mycroft4_loop_clamped:
  "mycroft4_loop m s len i = Some r \<Longrightarrow> r = - 127 \<or> r < len"
proof (induction "nat (len - i)" arbitrary: i rule: less_induct)
  case less
  from less.prems show ?case
    by (subst (asm) mycroft4_loop.simps)
      (auto simp: Let_def split: if_splits option.splits dest: less.hyps [rotated])
qed

lemma pure_mycroft4_loop_clamped:
  "pure_mycroft4_loop m s len highs i = Some r \<Longrightarrow> r = - 127 \<or> r < len"
proof (induction "nat (len - i)" arbitrary: i highs rule: less_induct)
  case less
  from less.prems show ?case
    by (subst (asm) pure_mycroft4_loop.simps)
      (auto simp: Let_def split: if_splits option.splits dest: less.hyps [rotated])
qed

lemma mycroft_loop_clamped:
  "mycroft_loop m s len i = Some r \<Longrightarrow> r = - 127 \<or> r < len"
proof (induction "nat (len - i)" arbitrary: i rule: less_induct)
  case less
  from less.prems show ?case
    by (subst (asm) mycroft_loop.simps)
      (auto simp: Let_def split: if_splits option.splits dest: less.hyps [rotated])
qed

lemma pure_mycroft_loop_clamped:
  "pure_mycroft_loop m s len highs i = Some r \<Longrightarrow> r = - 127 \<or> r < len"
proof (induction "nat (len - i)" arbitrary: i highs rule: less_induct)
  case less
  from less.prems show ?case
    by (subst (asm) pure_mycroft_loop.simps)
      (auto simp: Let_def split: if_splits option.splits dest: less.hyps [rotated])
qed

lemma mycroft4_until16_Done_clamped:
  "mycroft4_until16 m s len i = Some (Done r) \<Longrightarrow> r = - 127 \<or> r < len"
proof (induction "nat (len - i)" arbitrary: i rule: less_induct)
  case less
  from less.prems show ?case
    by (subst (asm) mycroft4_until16.simps)
      (auto simp: Let_def split: if_splits option.splits dest: less.hyps [rotated])
qed

lemma twosse2_loop_clamped:
  "twosse2_loop m s len prev i = Some x \<Longrightarrow>
     returned_value x = - 127 \<or> returned_value x + 1 < len"
proof (induction "nat (len - i)" arbitrary: i prev rule: less_induct)
  case less
  from less.prems show ?case
    by (subst (asm) twosse2_loop.simps)
      (auto simp: Let_def split: if_splits option.splits dest: less.hyps [rotated])
qed

lemma twobsse2_loop_clamped:
  "twobsse2_loop m s len stars i = Some r \<Longrightarrow> r = - 127 \<or> r + 1 < len"
proof (induction "nat (len - i)" arbitrary: i stars rule: less_induct)
  case less
  from less.prems show ?case
    by (subst (asm) twobsse2_loop.simps)
      (auto simp: Let_def split: if_splits option.splits dest: less.hyps [rotated])
qed

lemma pure_twobsse2_loop_clamped:
  "pure_twobsse2_loop m s len am stars i = Some r \<Longrightarrow> r = - 127 \<or> r + 1 < len"
proof (induction "nat (len - i)" arbitrary: i am stars rule: less_induct)
  case less
  from less.prems show ?case
    by (subst (asm) pure_twobsse2_loop.simps)
      (auto simp: Let_def split: if_splits option.splits dest: less.hyps [rotated])
qed

lemma mycroft2_loop_clamped:
  "mycroft2_loop m s len i = Some r \<Longrightarrow> r = - 127 \<or> r + 1 < len"
proof (induction "nat (len - i)" arbitrary: i rule: less_induct)
  case less
  from less.prems show ?case
    by (subst (asm) mycroft2_loop.simps)
      (auto simp: Let_def split: if_splits option.splits dest: less.hyps [rotated])
qed

lemma pure_mycroft2_loop_clamped:
  "pure_mycroft2_loop m s len highs stars_low i = Some r \<Longrightarrow> r = - 127 \<or> r + 1 < len"
proof (induction "nat (len - i)" arbitrary: i highs stars_low rule: less_induct)
  case less
  from less.prems show ?case
    by (subst (asm) pure_mycroft2_loop.simps)
      (auto simp: Let_def split: if_splits option.splits dest: less.hyps [rotated])
qed

lemma test_pure_sse2_clamped: "test_pure_sse2 m s len = Some r \<Longrightarrow> r = - 127 \<or> r < len"
  unfolding test_pure_sse2_def Let_def by (rule pure_sse2_loop_clamped)

lemma test_sse2_clamped: "test_sse2 m s len = Some r \<Longrightarrow> r = - 127 \<or> r < len"
  unfolding test_sse2_def
  by (auto split: option.splits prologue.splits if_splits
      dest: byte_prologue_Done_bound sse2_loop_clamped)

lemma test_sse2_and_mycroft4_clamped:
  "test_sse2_and_mycroft4 m s len = Some r \<Longrightarrow> r = - 127 \<or> r < len"
  unfolding test_sse2_and_mycroft4_def
  by (auto split: option.splits prologue.splits if_splits
      dest: byte_prologue_Done_bound sse2_loop_clamped mycroft4_until16_Done_clamped)

lemma test_mycroft4_clamped: "test_mycroft4 m s len = Some r \<Longrightarrow> r = - 127 \<or> r < len"
  unfolding test_mycroft4_def
  by (auto split: option.splits prologue.splits if_splits
      dest: byte_prologue_Done_bound mycroft4_loop_clamped)

lemma test_pure_mycroft4_clamped:
  "test_pure_mycroft4 m s len = Some r \<Longrightarrow> r = - 127 \<or> r < len"
  unfolding test_pure_mycroft4_def Let_def by (rule pure_mycroft4_loop_clamped)

lemma test_mycroft_clamped: "test_mycroft m s len = Some r \<Longrightarrow> r = - 127 \<or> r < len"
  unfolding test_mycroft_def
  by (auto split: option.splits prologue.splits if_splits
      dest: byte_prologue_Done_bound mycroft_loop_clamped)

lemma test_pure_mycroft_clamped:
  "test_pure_mycroft m s len = Some r \<Longrightarrow> r = - 127 \<or> r < len"
  unfolding test_pure_mycroft_def Let_def by (rule pure_mycroft_loop_clamped)

lemma test_twosse2_clamped: "test_twosse2 m s len = Some r \<Longrightarrow> r = - 127 \<or> r + 1 < len"
  unfolding test_twosse2_def twosse2_returned_def
  by (auto split: option.splits prologue.splits if_splits
      dest: pair_prologue_Done_bound twosse2_loop_clamped)

lemma test_twobsse2_clamped: "test_twobsse2 m s len = Some r \<Longrightarrow> r = - 127 \<or> r + 1 < len"
  unfolding test_twobsse2_def
  by (auto split: option.splits prologue.splits if_splits
      dest: pair_prologue_Done_bound twobsse2_loop_clamped)

lemma test_pure_twobsse2_clamped:
  "test_pure_twobsse2 m s len = Some r \<Longrightarrow> r = - 127 \<or> r + 1 < len"
  unfolding test_pure_twobsse2_def Let_def by (rule pure_twobsse2_loop_clamped)

lemma test_mycroft2_clamped: "test_mycroft2 m s len = Some r \<Longrightarrow> r = - 127 \<or> r + 1 < len"
  unfolding test_mycroft2_def
  by (auto split: option.splits prologue.splits if_splits
      dest: pair_prologue_Done_bound mycroft2_loop_clamped)

lemma test_pure_mycroft2_clamped:
  "test_pure_mycroft2 m s len = Some r \<Longrightarrow> r = - 127 \<or> r + 1 < len"
  unfolding test_pure_mycroft2_def Let_def by (rule pure_mycroft2_loop_clamped)

subsection \<open>Vector compare and mask extraction\<close>

lemma load_bytes_Some:
  "load_bytes m a n = Some bs \<Longrightarrow> length bs = n \<and> (\<forall>k<n. bs ! k = bytes m (a + int k))"
  by (auto simp: load_bytes_def split: if_splits)

lemma load_uint128_Some:
  "load_uint128 m a = Some raw \<Longrightarrow> length raw = 16 \<and> (\<forall>k<16. raw ! k = bytes m (a + int k))"
  unfolding load_uint128_def by (rule load_bytes_Some)

lemma load_byte_Some: "load_byte m a = Some c \<Longrightarrow> c = bytes m a"
  by (auto simp: load_byte_def split: if_splits)

lemma bit_movemask_cmpeq:
  "length raw = 16 \<Longrightarrow>
     bit (mm_movemask_epi8 (mm_cmpeq_epi8 raw (mm_set1_epi8 c))) n \<longleftrightarrow> n < 16 \<and> raw ! n = c"
proof -
  have "bit (0xff::byte) 7" "\<not> bit (0::byte) 7" by simp_all
  then show ?thesis if "length raw = 16"
    using that
    by (auto simp: mm_movemask_epi8_def mm_cmpeq_epi8_def mm_set1_epi8_def bit_horner_sum_bit_iff
        split: if_splits)
qed

lemma and_0x8000_iff: "(x::int) AND 0x8000 \<noteq> 0 \<longleftrightarrow> bit x 15"
proof -
  have "(0x8000::int) = 2 ^ 15" by simp
  then show ?thesis by (simp only: and_exp_eq_0_iff_not_bit) simp
qed

lemma and_1_iff: "(x::int) AND 1 \<noteq> 0 \<longleftrightarrow> bit x 0"
  by (simp add: and_one_eq bit_0 odd_iff_mod_2_eq_one)

subsection \<open>The cross-block branch of \<^verbatim>\<open>test_twosse2\<close>\<close>

lemma pair_prologue_Aligned_advances:
  "pair_prologue B m s len i0 = Some (Aligned i) \<Longrightarrow> i < len - 1 \<Longrightarrow> i0 < i"
proof (induction "nat (len - i0)" arbitrary: i0 rule: less_induct)
  case less
  from less.prems show ?case
    by (subst (asm) pair_prologue.simps)
      (auto split: if_splits option.splits dest: less.hyps [rotated])
qed

lemma twosse2_loop_straddle:
  "twosse2_loop m s len prev i = Some (Via_straddle r) \<Longrightarrow> 1 \<le> i \<Longrightarrow>
     (bit prev 15 \<longrightarrow> bytes m (s + (i - 1)) = star) \<Longrightarrow>
     0 \<le> r \<and> r + 1 < len \<and> star_hash_at m s r"
proof (induction "nat (len - i)" arbitrary: i prev rule: less_induct)
  case less
  show ?case
  proof (cases "i < len")
    case False
    with less.prems(1) show ?thesis
      by (simp add: twosse2_loop.simps [of m s len prev i])
  next
    case True
    with less.prems(1) obtain raw where raw: "load_uint128 m (s + i) = Some raw"
      by (cases "load_uint128 m (s + i)") (simp_all add: twosse2_loop.simps [of m s len prev i])
    then have len16: "length raw = 16" and lanes: "\<And>k. k < 16 \<Longrightarrow> raw ! k = bytes m (s + i + int k)"
      by (auto dest: load_uint128_Some)
    define stars where "stars = mm_movemask_epi8 (mm_cmpeq_epi8 raw (mm_set1_epi8 star))"
    define hashes where "hashes = mm_movemask_epi8 (mm_cmpeq_epi8 raw (mm_set1_epi8 hash))"
    show ?thesis
    proof (cases "bit prev 15 \<and> bit hashes 0")
      case True
      with \<open>i < len\<close> raw less.prems(1) have "r = i - 1"
        by (simp add: twosse2_loop.simps [of m s len prev i] Let_def hashes_def
            and_0x8000_iff and_1_iff)
      moreover from True len16 lanes [of 0] have "bytes m (s + i) = hash"
        by (simp add: hashes_def bit_movemask_cmpeq)
      moreover from True less.prems(3) have "bytes m (s + (i - 1)) = star" by simp
      ultimately show ?thesis
        using less.prems(2) \<open>i < len\<close> by (simp add: star_hash_at_def)
    next
      case False
      with \<open>i < len\<close> raw less.prems(1)
      have rec: "twosse2_loop m s len stars (i + 16) = Some (Via_straddle r)"
        by (simp add: twosse2_loop.simps [of m s len prev i] Let_def hashes_def stars_def
            and_0x8000_iff and_1_iff split: if_splits)
      from \<open>i < len\<close> have "nat (len - (i + 16)) < nat (len - i)" by simp
      moreover note rec
      moreover from less.prems(2) have "1 \<le> i + 16" by simp
      moreover have "bit stars 15 \<longrightarrow> bytes m (s + (i + 16 - 1)) = star"
        using len16 lanes [of 15] by (simp add: stars_def bit_movemask_cmpeq ac_simps)
      ultimately show ?thesis by (rule less.hyps)
    qed
  qed
qed

subsection \<open>Loops do not fault when their loads are permitted\<close>

lemma load_byte_readable: "readable m a 1 \<Longrightarrow> load_byte m a = Some (bytes m a)"
  by (simp add: load_byte_def)

lemma load_uint128_readable: "readable m a 16 \<Longrightarrow> \<exists>raw. load_uint128 m a = Some raw"
  by (simp add: load_uint128_def load_bytes_def)

lemma load_uint64_readable: "readable m a 8 \<Longrightarrow> \<exists>w. load_uint64 m a = Some w"
  by (simp add: load_uint64_def load_bytes_def)

lemma load_uint32_readable: "readable m a 4 \<Longrightarrow> \<exists>w. load_uint32 m a = Some w"
  by (simp add: load_uint32_def load_bytes_def)

lemma naive_loop_no_fault:
  assumes "\<And>j. 0 \<le> j \<Longrightarrow> j < len \<Longrightarrow> readable m (s + j) 1"
  shows "0 \<le> i \<Longrightarrow> naive_loop m s len i \<noteq> None"
proof (induction "nat (len - i)" arbitrary: i rule: less_induct)
  case less
  show ?case
  proof (cases "i < len")
    case False
    then show ?thesis by (simp add: naive_loop.simps [of m s len i])
  next
    case True
    with less.prems have "load_byte m (s + i) = Some (bytes m (s + i))"
      by (intro load_byte_readable assms)
    moreover from True less.prems have "naive_loop m s len (i + 1) \<noteq> None"
      by (intro less.hyps) simp_all
    ultimately show ?thesis
      using True by (simp add: naive_loop.simps [of m s len i])
  qed
qed

lemma pair_at_no_fault:
  "readable m a 1 \<Longrightarrow> readable m (a + 1) 1 \<Longrightarrow> pair_at m a \<noteq> None"
  by (simp add: pair_at_readable)

lemma twobyte_loop_no_fault:
  assumes "\<And>j. 0 \<le> j \<Longrightarrow> j < n + 1 \<Longrightarrow> readable m (s + j) 1"
  shows "0 \<le> i \<Longrightarrow> twobyte_loop m s n i \<noteq> None"
proof (induction "nat (n - i)" arbitrary: i rule: less_induct)
  case less
  show ?case
  proof (cases "i < n")
    case False
    then show ?thesis by (simp add: twobyte_loop.simps [of m s n i])
  next
    case True
    with less.prems have "readable m (s + i) 1" "readable m (s + (i + 1)) 1"
      by (simp_all add: assms del: One_nat_def)
    then have "pair_at m (s + i) \<noteq> None"
      by (intro pair_at_no_fault) (simp_all add: add.assoc)
    moreover from True less.prems have "twobyte_loop m s n (i + 1) \<noteq> None"
      by (intro less.hyps) simp_all
    ultimately show ?thesis
      using True by (auto simp: twobyte_loop.simps [of m s n i])
  qed
qed

lemma byte_prologue_no_fault:
  assumes "\<And>j. 0 \<le> j \<Longrightarrow> j < len \<Longrightarrow> readable m (s + j) 1"
  shows "0 \<le> i \<Longrightarrow> byte_prologue B m s len i \<noteq> None"
proof (induction "nat (len - i)" arbitrary: i rule: less_induct)
  case less
  show ?case
  proof (cases "i < len")
    case False
    then show ?thesis by (simp add: byte_prologue.simps [of B m s len i])
  next
    case True
    with less.prems have "load_byte m (s + i) = Some (bytes m (s + i))"
      by (intro load_byte_readable assms)
    moreover from True less.prems have "byte_prologue B m s len (i + 1) \<noteq> None"
      by (intro less.hyps) simp_all
    ultimately show ?thesis
      using True by (simp add: byte_prologue.simps [of B m s len i])
  qed
qed

lemma pair_prologue_no_fault:
  assumes "\<And>j. 0 \<le> j \<Longrightarrow> j < len \<Longrightarrow> readable m (s + j) 1"
  shows "0 \<le> i \<Longrightarrow> pair_prologue B m s len i \<noteq> None"
proof (induction "nat (len - i)" arbitrary: i rule: less_induct)
  case less
  show ?case
  proof (cases "i < len - 1")
    case False
    then show ?thesis by (simp add: pair_prologue.simps [of B m s len i])
  next
    case True
    with less.prems have "readable m (s + i) 1" "readable m (s + (i + 1)) 1"
      by (simp_all add: assms del: One_nat_def)
    then have "pair_at m (s + i) \<noteq> None"
      by (intro pair_at_no_fault) (simp_all add: add.assoc)
    moreover from True less.prems have "pair_prologue B m s len (i + 1) \<noteq> None"
      by (intro less.hyps) simp_all
    ultimately show ?thesis
      using True by (auto simp: pair_prologue.simps [of B m s len i])
  qed
qed

lemma byte_prologue_Aligned:
  "byte_prologue B m s len i = Some (Aligned i') \<Longrightarrow> 0 \<le> i \<Longrightarrow> i' < len \<Longrightarrow>
     0 < i' \<and> (s + i') mod B = 0"
proof (induction "nat (len - i)" arbitrary: i rule: less_induct)
  case less
  from less.prems show ?case
    by (subst (asm) byte_prologue.simps)
      (auto split: if_splits option.splits dest: less.hyps [rotated])
qed

lemma pair_prologue_Aligned:
  "pair_prologue B m s len i = Some (Aligned i') \<Longrightarrow> 0 \<le> i \<Longrightarrow> i' < len - 1 \<Longrightarrow>
     0 < i' \<and> (s + i') mod B = 0"
proof (induction "nat (len - i)" arbitrary: i rule: less_induct)
  case less
  from less.prems show ?case
    by (subst (asm) pair_prologue.simps)
      (auto split: if_splits option.splits dest: less.hyps [rotated])
qed

lemma mycroft4_until16_Aligned:
  "mycroft4_until16 m s len i = Some (Aligned i') \<Longrightarrow> 0 \<le> i \<Longrightarrow> i' < len \<Longrightarrow>
     0 < i' \<and> (s + i') mod 16 = 0"
proof (induction "nat (len - i)" arbitrary: i rule: less_induct)
  case less
  from less.prems show ?case
    by (subst (asm) mycroft4_until16.simps)
      (auto simp: Let_def split: if_splits option.splits dest: less.hyps [rotated])
qed

lemma sse2_loop_no_fault:
  assumes "\<And>j. - 16 < j \<Longrightarrow> j < len \<Longrightarrow> (s + j) mod 16 = 0 \<Longrightarrow> readable m (s + j) 16"
  shows "- 16 < i \<Longrightarrow> (s + i) mod 16 = 0 \<Longrightarrow> sse2_loop m s len i \<noteq> None"
proof (induction "nat (len - i)" arbitrary: i rule: less_induct)
  case less
  show ?case
  proof (cases "i < len")
    case False
    then show ?thesis by (simp add: sse2_loop.simps [of m s len i])
  next
    case True
    with less.prems obtain raw where "load_uint128 m (s + i) = Some raw"
      using load_uint128_readable [OF assms [of i]] by auto
    moreover from less.prems have "(s + (i + 16)) mod 16 = 0" by presburger
    with True less.prems have "sse2_loop m s len (i + 16) \<noteq> None"
      by (intro less.hyps) simp_all
    ultimately show ?thesis
      using True by (simp add: sse2_loop.simps [of m s len i] Let_def)
  qed
qed

lemma pure_sse2_loop_no_fault:
  assumes "\<And>j. - 16 < j \<Longrightarrow> j < len \<Longrightarrow> (s + j) mod 16 = 0 \<Longrightarrow> readable m (s + j) 16"
  shows "- 16 < i \<Longrightarrow> (s + i) mod 16 = 0 \<Longrightarrow> pure_sse2_loop m s len am i \<noteq> None"
proof (induction "nat (len - i)" arbitrary: i am rule: less_induct)
  case less
  show ?case
  proof (cases "i < len")
    case False
    then show ?thesis by (simp add: pure_sse2_loop.simps [of m s len am i])
  next
    case True
    with less.prems obtain raw where "load_uint128 m (s + i) = Some raw"
      using load_uint128_readable [OF assms [of i]] by auto
    moreover from less.prems have "(s + (i + 16)) mod 16 = 0" by presburger
    with True less.prems have "pure_sse2_loop m s len 0xffff (i + 16) \<noteq> None"
      by (intro less.hyps) simp_all
    ultimately show ?thesis
      using True by (simp add: pure_sse2_loop.simps [of m s len am i] Let_def)
  qed
qed

lemma mycroft4_loop_no_fault:
  assumes "\<And>j. - 4 < j \<Longrightarrow> j < len \<Longrightarrow> (s + j) mod 4 = 0 \<Longrightarrow> readable m (s + j) 4"
  shows "- 4 < i \<Longrightarrow> (s + i) mod 4 = 0 \<Longrightarrow> mycroft4_loop m s len i \<noteq> None"
proof (induction "nat (len - i)" arbitrary: i rule: less_induct)
  case less
  show ?case
  proof (cases "i < len")
    case False
    then show ?thesis by (simp add: mycroft4_loop.simps [of m s len i])
  next
    case True
    with less.prems obtain raw where "load_uint32 m (s + i) = Some raw"
      using load_uint32_readable [OF assms [of i]] by auto
    moreover from less.prems have "(s + (i + 4)) mod 4 = 0" by presburger
    with True less.prems have "mycroft4_loop m s len (i + 4) \<noteq> None"
      by (intro less.hyps) simp_all
    ultimately show ?thesis
      using True by (simp add: mycroft4_loop.simps [of m s len i] Let_def)
  qed
qed

lemma pure_mycroft4_loop_no_fault:
  assumes "\<And>j. - 4 < j \<Longrightarrow> j < len \<Longrightarrow> (s + j) mod 4 = 0 \<Longrightarrow> readable m (s + j) 4"
  shows "- 4 < i \<Longrightarrow> (s + i) mod 4 = 0 \<Longrightarrow> pure_mycroft4_loop m s len highs i \<noteq> None"
proof (induction "nat (len - i)" arbitrary: i highs rule: less_induct)
  case less
  show ?case
  proof (cases "i < len")
    case False
    then show ?thesis by (simp add: pure_mycroft4_loop.simps [of m s len highs i])
  next
    case True
    with less.prems obtain raw where "load_uint32 m (s + i) = Some raw"
      using load_uint32_readable [OF assms [of i]] by auto
    moreover from less.prems have "(s + (i + 4)) mod 4 = 0" by presburger
    with True less.prems have "\<And>h. pure_mycroft4_loop m s len h (i + 4) \<noteq> None"
      by (intro less.hyps) simp_all
    ultimately show ?thesis
      using True by (simp add: pure_mycroft4_loop.simps [of m s len highs i] Let_def)
  qed
qed

lemma mycroft_loop_no_fault:
  assumes "\<And>j. - 8 < j \<Longrightarrow> j < len \<Longrightarrow> (s + j) mod 8 = 0 \<Longrightarrow> readable m (s + j) 8"
  shows "- 8 < i \<Longrightarrow> (s + i) mod 8 = 0 \<Longrightarrow> mycroft_loop m s len i \<noteq> None"
proof (induction "nat (len - i)" arbitrary: i rule: less_induct)
  case less
  show ?case
  proof (cases "i < len")
    case False
    then show ?thesis by (simp add: mycroft_loop.simps [of m s len i])
  next
    case True
    with less.prems obtain raw where "load_uint64 m (s + i) = Some raw"
      using load_uint64_readable [OF assms [of i]] by auto
    moreover from less.prems have "(s + (i + 8)) mod 8 = 0" by presburger
    with True less.prems have "mycroft_loop m s len (i + 8) \<noteq> None"
      by (intro less.hyps) simp_all
    ultimately show ?thesis
      using True by (simp add: mycroft_loop.simps [of m s len i] Let_def)
  qed
qed

lemma pure_mycroft_loop_no_fault:
  assumes "\<And>j. - 8 < j \<Longrightarrow> j < len \<Longrightarrow> (s + j) mod 8 = 0 \<Longrightarrow> readable m (s + j) 8"
  shows "- 8 < i \<Longrightarrow> (s + i) mod 8 = 0 \<Longrightarrow> pure_mycroft_loop m s len highs i \<noteq> None"
proof (induction "nat (len - i)" arbitrary: i highs rule: less_induct)
  case less
  show ?case
  proof (cases "i < len")
    case False
    then show ?thesis by (simp add: pure_mycroft_loop.simps [of m s len highs i])
  next
    case True
    with less.prems obtain raw where "load_uint64 m (s + i) = Some raw"
      using load_uint64_readable [OF assms [of i]] by auto
    moreover from less.prems have "(s + (i + 8)) mod 8 = 0" by presburger
    with True less.prems have "\<And>h. pure_mycroft_loop m s len h (i + 8) \<noteq> None"
      by (intro less.hyps) simp_all
    ultimately show ?thesis
      using True by (simp add: pure_mycroft_loop.simps [of m s len highs i] Let_def)
  qed
qed

lemma twosse2_loop_no_fault:
  assumes "\<And>j. - 16 < j \<Longrightarrow> j < len \<Longrightarrow> (s + j) mod 16 = 0 \<Longrightarrow> readable m (s + j) 16"
  shows "- 16 < i \<Longrightarrow> (s + i) mod 16 = 0 \<Longrightarrow> twosse2_loop m s len prev i \<noteq> None"
proof (induction "nat (len - i)" arbitrary: i prev rule: less_induct)
  case less
  show ?case
  proof (cases "i < len")
    case False
    then show ?thesis by (simp add: twosse2_loop.simps [of m s len prev i])
  next
    case True
    with less.prems obtain raw where "load_uint128 m (s + i) = Some raw"
      using load_uint128_readable [OF assms [of i]] by auto
    moreover from less.prems have "(s + (i + 16)) mod 16 = 0" by presburger
    with True less.prems have "\<And>p. twosse2_loop m s len p (i + 16) \<noteq> None"
      by (intro less.hyps) simp_all
    ultimately show ?thesis
      using True by (simp add: twosse2_loop.simps [of m s len prev i] Let_def)
  qed
qed

lemma twobsse2_loop_no_fault:
  assumes "\<And>j. - 16 < j \<Longrightarrow> j < len \<Longrightarrow> (s + j) mod 16 = 0 \<Longrightarrow> readable m (s + j) 16"
  shows "- 16 < i \<Longrightarrow> (s + i) mod 16 = 0 \<Longrightarrow> twobsse2_loop m s len stars i \<noteq> None"
proof (induction "nat (len - i)" arbitrary: i stars rule: less_induct)
  case less
  show ?case
  proof (cases "i < len")
    case False
    then show ?thesis by (simp add: twobsse2_loop.simps [of m s len stars i])
  next
    case True
    with less.prems obtain raw where "load_uint128 m (s + i) = Some raw"
      using load_uint128_readable [OF assms [of i]] by auto
    moreover from less.prems have "(s + (i + 16)) mod 16 = 0" by presburger
    with True less.prems have "\<And>st. twobsse2_loop m s len st (i + 16) \<noteq> None"
      by (intro less.hyps) simp_all
    ultimately show ?thesis
      using True by (simp add: twobsse2_loop.simps [of m s len stars i] Let_def)
  qed
qed

lemma pure_twobsse2_loop_no_fault:
  assumes "\<And>j. - 16 < j \<Longrightarrow> j < len \<Longrightarrow> (s + j) mod 16 = 0 \<Longrightarrow> readable m (s + j) 16"
  shows "- 16 < i \<Longrightarrow> (s + i) mod 16 = 0 \<Longrightarrow> pure_twobsse2_loop m s len am stars i \<noteq> None"
proof (induction "nat (len - i)" arbitrary: i am stars rule: less_induct)
  case less
  show ?case
  proof (cases "i < len")
    case False
    then show ?thesis by (simp add: pure_twobsse2_loop.simps [of m s len am stars i])
  next
    case True
    with less.prems obtain raw where "load_uint128 m (s + i) = Some raw"
      using load_uint128_readable [OF assms [of i]] by auto
    moreover from less.prems have "(s + (i + 16)) mod 16 = 0" by presburger
    with True less.prems have "\<And>a st. pure_twobsse2_loop m s len a st (i + 16) \<noteq> None"
      by (intro less.hyps) simp_all
    ultimately show ?thesis
      using True by (simp add: pure_twobsse2_loop.simps [of m s len am stars i] Let_def)
  qed
qed

lemma pure_mycroft2_loop_no_fault:
  assumes "\<And>j. - 8 < j \<Longrightarrow> j < len \<Longrightarrow> (s + j) mod 8 = 0 \<Longrightarrow> readable m (s + j) 8"
  shows "- 8 < i \<Longrightarrow> (s + i) mod 8 = 0 \<Longrightarrow> pure_mycroft2_loop m s len highs stars_low i \<noteq> None"
proof (induction "nat (len - i)" arbitrary: i highs stars_low rule: less_induct)
  case less
  show ?case
  proof (cases "i < len")
    case False
    then show ?thesis by (simp add: pure_mycroft2_loop.simps [of m s len highs stars_low i])
  next
    case True
    with less.prems obtain raw where "load_uint64 m (s + i) = Some raw"
      using load_uint64_readable [OF assms [of i]] by auto
    moreover from less.prems have "(s + (i + 8)) mod 8 = 0" by presburger
    with True less.prems have "\<And>h st. pure_mycroft2_loop m s len h st (i + 8) \<noteq> None"
      by (intro less.hyps) simp_all
    ultimately show ?thesis
      using True by (simp add: pure_mycroft2_loop.simps [of m s len highs stars_low i] Let_def)
  qed
qed

lemma mycroft4_until16_no_fault:
  assumes "\<And>j. - 4 < j \<Longrightarrow> j < len \<Longrightarrow> (s + j) mod 4 = 0 \<Longrightarrow> readable m (s + j) 4"
  shows "- 4 < i \<Longrightarrow> (s + i) mod 4 = 0 \<Longrightarrow> mycroft4_until16 m s len i \<noteq> None"
proof (induction "nat (len - i)" arbitrary: i rule: less_induct)
  case less
  show ?case
  proof (cases "i < len")
    case False
    then show ?thesis by (simp add: mycroft4_until16.simps [of m s len i])
  next
    case True
    with less.prems obtain raw where "load_uint32 m (s + i) = Some raw"
      using load_uint32_readable [OF assms [of i]] by auto
    moreover from less.prems have "(s + (i + 4)) mod 4 = 0" by presburger
    with True less.prems have "mycroft4_until16 m s len (i + 4) \<noteq> None"
      by (intro less.hyps) simp_all
    ultimately show ?thesis
      using True by (simp add: mycroft4_until16.simps [of m s len i] Let_def)
  qed
qed

lemma mycroft2_loop_no_fault:
  assumes "\<And>j. 0 < j \<Longrightarrow> j < len \<Longrightarrow> (s + j) mod 8 = 0 \<Longrightarrow>
             readable m (s + j - 1) 8 \<and> readable m (s + j) 8"
  shows "0 < i \<Longrightarrow> (s + i) mod 8 = 0 \<Longrightarrow> mycroft2_loop m s len i \<noteq> None"
proof (induction "nat (len - i)" arbitrary: i rule: less_induct)
  case less
  show ?case
  proof (cases "i < len")
    case False
    then show ?thesis by (simp add: mycroft2_loop.simps [of m s len i])
  next
    case True
    with less.prems have "readable m (s + i - 1) 8" "readable m (s + i) 8"
      using assms [of i] by auto
    then obtain w w2 where "load_uint64 m (s + i - 1) = Some w" "load_uint64 m (s + i) = Some w2"
      using load_uint64_readable by blast
    moreover from less.prems have "(s + (i + 8)) mod 8 = 0" by presburger
    with True less.prems have "mycroft2_loop m s len (i + 8) \<noteq> None"
      by (intro less.hyps) simp_all
    ultimately show ?thesis
      using True by (simp add: mycroft2_loop.simps [of m s len i] Let_def)
  qed
qed

subsection \<open>Aligned blocks that hold a byte of the buffer\<close>

lemma div_offset_small:
  "0 < B \<Longrightarrow> 0 \<le> d \<Longrightarrow> a mod B + d < B \<Longrightarrow> (a + d) div B = a div (B::int)"
proof -
  assume B: "0 < B" and d: "0 \<le> d" and less: "a mod B + d < B"
  have "0 \<le> a mod B" using B by simp
  with d less have "d < B" by linarith
  with d have "d div B = 0" "d mod B = d" by simp_all
  moreover from B d less have "(a mod B + d) div B = 0"
    by (intro div_pos_pos_trivial) simp_all
  ultimately show ?thesis by (subst div_add1_eq) simp
qed

lemma div_aligned_offset:
  "0 < B \<Longrightarrow> a mod B = 0 \<Longrightarrow> 0 \<le> d \<Longrightarrow> d < B \<Longrightarrow> (a + d) div B = a div (B::int)"
  by (rule div_offset_small) simp_all

lemma mod_aligned_step: "a mod B = 0 \<Longrightarrow> (a + B) mod B = (0::int)"
  by simp

lemma in_block_byte: "0 \<le> j \<Longrightarrow> j < len \<Longrightarrow> in_block B s len (s + j) 1"
  unfolding in_block_def by (intro bexI [of _ j]) simp_all

lemma in_block_aligned:
  assumes "0 < B" "- B < j" "j < len" "1 \<le> len" "(s + j) mod B = 0"
  shows "in_block B s len (s + j) (nat B)"
proof -
  define d where "d = max j 0 - j"
  from assms have d: "0 \<le> d" "d < B" by (auto simp: d_def)
  have "(s + j + d) div B = (s + j) div B"
    using assms d by (intro div_aligned_offset)
  then have 1: "(s + j) div B = (s + max j 0) div B"
    by (simp add: d_def)
  have "(s + j + (B - 1)) div B = (s + j) div B"
    using assms by (intro div_aligned_offset) simp_all
  with assms have 2: "(s + j + int (nat B) - 1) div B = (s + max j 0) div B"
    using 1 by (simp add: algebra_simps)
  from assms have "max j 0 \<in> {0..<len}" by auto
  with 1 2 show ?thesis unfolding in_block_def by blast
qed

lemma bytes_in_blocks_unaligned:
  assumes "0 < j" "j < len" "(s + j) mod 8 = 0"
  shows "bytes_in_blocks 8 s len (s + j - 1) 8"
  unfolding bytes_in_blocks_def
proof
  fix k :: int assume k: "k \<in> {0..<int 8}"
  show "\<exists>i\<in>{0..<len}. (s + j - 1 + k) div 8 = (s + i) div 8"
  proof (cases "k = 0")
    case True
    with assms show ?thesis by (intro bexI [of _ "j - 1"]) simp_all
  next
    case False
    with k assms have "(s + j + (k - 1)) div 8 = (s + j) div 8"
      by (intro div_aligned_offset) simp_all
    then have "(s + j - 1 + k) div 8 = (s + j) div 8" by (simp add: algebra_simps)
    with assms show ?thesis by (intro bexI [of _ j]) simp_all
  qed
qed

lemma bytes_in_blocks_aligned:
  assumes "0 < j" "j < len" "(s + j) mod 8 = 0"
  shows "bytes_in_blocks 8 s len (s + j) 8"
  unfolding bytes_in_blocks_def
proof
  fix k :: int assume k: "k \<in> {0..<int 8}"
  with assms have "(s + j + k) div 8 = (s + j) div 8"
    by (intro div_aligned_offset) simp_all
  with assms show "\<exists>i\<in>{0..<len}. (s + j + k) div 8 = (s + i) div 8"
    by (intro bexI [of _ j]) simp_all
qed

lemma bytes_in_blocks_byte: "0 \<le> j \<Longrightarrow> j < len \<Longrightarrow> bytes_in_blocks B s len (s + j) 1"
  unfolding bytes_in_blocks_def
proof
  fix k :: int assume "k \<in> {0..<int 1}"
  then have "k = 0" by simp
  moreover assume "0 \<le> j" "j < len"
  ultimately show "\<exists>i\<in>{0..<len}. (s + j + k) div B = (s + i) div B"
    by (intro bexI [of _ j]) simp_all
qed

lemma readable_guarded: "readable (guarded p f) = p"
  by (simp add: guarded_def)

lemma in_block_16_word':
  assumes "- 4 < j" "j < len" "1 \<le> len" "(s + j) mod 4 = 0"
  shows "in_block 16 s len (s + j) 4"
proof -
  have "(s + j) mod 16 mod 4 = (s + j) mod 4"
    by (rule mod_mod_cancel) simp
  with assms have r4: "(s + j) mod 16 mod 4 = 0" by simp
  have "0 \<le> (s + j) mod 16" "(s + j) mod 16 < 16" by simp_all
  with r4 have r: "(s + j) mod 16 + 3 < 16" by presburger
  define d where "d = max j 0 - j"
  from assms have d: "0 \<le> d" "d \<le> 3" by (auto simp: d_def)
  with r have "(s + j + d) div 16 = (s + j) div 16"
    by (intro div_offset_small) simp_all
  then have 1: "(s + j) div 16 = (s + max j 0) div 16" by (simp add: d_def)
  from r have "(s + j + 3) div 16 = (s + j) div 16"
    by (intro div_offset_small) simp_all
  with 1 have 2: "(s + j + int 4 - 1) div 16 = (s + max j 0) div 16" by simp
  from assms have "max j 0 \<in> {0..<len}" by auto
  with 1 2 show ?thesis unfolding in_block_def by blast
qed

lemma block_load_byte: "0 \<le> j \<Longrightarrow> j < len \<Longrightarrow> block_load B s len (s + j) 1"
  unfolding block_load_def using in_block_byte [of j len 1 s] in_block_byte [of j len B s]
  by (simp del: One_nat_def)

lemma block_load_aligned:
  assumes "0 < B" "- B < j" "j < len" "1 \<le> len" "(s + j) mod B = 0"
  shows "block_load B s len (s + j) (nat B)"
  unfolding block_load_def using in_block_aligned [OF assms] assms(1) by simp

lemma block_load_16_word:
  assumes "- 4 < j" "j < len" "1 \<le> len" "(s + j) mod 4 = 0"
  shows "block_load 16 s len (s + j) 4"
  unfolding block_load_def
  using in_block_aligned [of 4 j len s] in_block_16_word' [OF assms] assms by simp

lemma mycroft2_load_byte: "0 \<le> j \<Longrightarrow> j < len \<Longrightarrow> mycroft2_load s len (s + j) 1"
  unfolding mycroft2_load_def by (simp add: block_load_byte del: One_nat_def)

lemma mycroft2_load_word:
  assumes "0 < j" "j < len" "(s + j) mod 8 = 0"
  shows "mycroft2_load s len (s + j - 1) 8" "mycroft2_load s len (s + j) 8"
  unfolding mycroft2_load_def
  using bytes_in_blocks_unaligned [OF assms] bytes_in_blocks_aligned [OF assms] by simp_all

lemma start_aligned: "(s + - (s mod B)) mod B = (0::int)"
  by (simp add: minus_mod_eq_mult_div)

lemma start_bound: "0 < B \<Longrightarrow> - B < - (s mod (B::int))"
  by simp

lemma test_naive_safe: "test_naive (guarded (block_load 1 s len) f) s len \<noteq> None"
  unfolding test_naive_def
  by (rule naive_loop_no_fault) (simp_all add: readable_guarded block_load_byte del: One_nat_def)

lemma test_twobyte_safe: "test_twobyte (guarded (block_load 1 s len) f) s len \<noteq> None"
  unfolding test_twobyte_def
  by (rule twobyte_loop_no_fault) (simp_all add: readable_guarded block_load_byte del: One_nat_def)

lemma test_sse2_safe: "test_sse2 (guarded (block_load 16 s len) f) s len \<noteq> None"
proof -
  let ?m = "guarded (block_load 16 s len) f"
  have "byte_prologue 16 ?m s len 0 \<noteq> None"
    by (rule byte_prologue_no_fault) (simp_all add: readable_guarded block_load_byte del: One_nat_def)
  moreover have "sse2_loop ?m s len i \<noteq> None"
    if "byte_prologue 16 ?m s len 0 = Some (Aligned i)" "i < len" for i
  proof -
    from that have i: "0 < i" "(s + i) mod 16 = 0"
      using byte_prologue_Aligned [of 16 ?m s len 0 i] by simp_all
    with that have "1 \<le> len" by simp
    then have "\<And>j. - 16 < j \<Longrightarrow> j < len \<Longrightarrow> (s + j) mod 16 = 0 \<Longrightarrow> readable ?m (s + j) 16"
      using block_load_aligned [of 16 _ len s] by (simp add: readable_guarded)
    then show ?thesis using i by (intro sse2_loop_no_fault) simp_all
  qed
  ultimately show ?thesis
    unfolding test_sse2_def by (auto split: option.splits prologue.splits)
qed

lemma test_pure_sse2_safe:
  assumes "1 \<le> len \<or> s mod 16 = 0"
  shows "test_pure_sse2 (guarded (block_load 16 s len) f) s len \<noteq> None"
proof (cases "1 \<le> len")
  case True
  let ?m = "guarded (block_load 16 s len) f"
  from True have "\<And>j. - 16 < j \<Longrightarrow> j < len \<Longrightarrow> (s + j) mod 16 = 0 \<Longrightarrow> readable ?m (s + j) 16"
    using block_load_aligned [of 16 _ len s] by (simp add: readable_guarded)
  then show ?thesis
    unfolding test_pure_sse2_def Let_def
    by (intro pure_sse2_loop_no_fault start_aligned start_bound) simp_all
next
  case False
  with assms show ?thesis
    by (simp add: test_pure_sse2_def pure_sse2_loop.simps [of _ s len _ 0])
qed

lemma test_mycroft4_safe: "test_mycroft4 (guarded (block_load 4 s len) f) s len \<noteq> None"
proof -
  let ?m = "guarded (block_load 4 s len) f"
  have "byte_prologue 4 ?m s len 0 \<noteq> None"
    by (rule byte_prologue_no_fault) (simp_all add: readable_guarded block_load_byte del: One_nat_def)
  moreover have "mycroft4_loop ?m s len i \<noteq> None"
    if "byte_prologue 4 ?m s len 0 = Some (Aligned i)" "i < len" for i
  proof -
    from that have i: "0 < i" "(s + i) mod 4 = 0"
      using byte_prologue_Aligned [of 4 ?m s len 0 i] by simp_all
    with that have "1 \<le> len" by simp
    then have "\<And>j. - 4 < j \<Longrightarrow> j < len \<Longrightarrow> (s + j) mod 4 = 0 \<Longrightarrow> readable ?m (s + j) 4"
      using block_load_aligned [of 4 _ len s] by (simp add: readable_guarded)
    then show ?thesis using i by (intro mycroft4_loop_no_fault) simp_all
  qed
  ultimately show ?thesis
    unfolding test_mycroft4_def by (auto split: option.splits prologue.splits)
qed

lemma test_mycroft_safe: "test_mycroft (guarded (block_load 8 s len) f) s len \<noteq> None"
proof -
  let ?m = "guarded (block_load 8 s len) f"
  have "byte_prologue 8 ?m s len 0 \<noteq> None"
    by (rule byte_prologue_no_fault) (simp_all add: readable_guarded block_load_byte del: One_nat_def)
  moreover have "mycroft_loop ?m s len i \<noteq> None"
    if "byte_prologue 8 ?m s len 0 = Some (Aligned i)" "i < len" for i
  proof -
    from that have i: "0 < i" "(s + i) mod 8 = 0"
      using byte_prologue_Aligned [of 8 ?m s len 0 i] by simp_all
    with that have "1 \<le> len" by simp
    then have "\<And>j. - 8 < j \<Longrightarrow> j < len \<Longrightarrow> (s + j) mod 8 = 0 \<Longrightarrow> readable ?m (s + j) 8"
      using block_load_aligned [of 8 _ len s] by (simp add: readable_guarded)
    then show ?thesis using i by (intro mycroft_loop_no_fault) simp_all
  qed
  ultimately show ?thesis
    unfolding test_mycroft_def by (auto split: option.splits prologue.splits)
qed

lemma test_sse2_and_mycroft4_safe:
  "test_sse2_and_mycroft4 (guarded (block_load 16 s len) f) s len \<noteq> None"
proof -
  let ?m = "guarded (block_load 16 s len) f"
  have pro: "byte_prologue 4 ?m s len 0 \<noteq> None"
    by (rule byte_prologue_no_fault) (simp_all add: readable_guarded block_load_byte del: One_nat_def)
  have rest: "(case mycroft4_until16 ?m s len i of
               None \<Rightarrow> None
             | Some (Done r) \<Rightarrow> Some r
             | Some (Aligned i') \<Rightarrow>
                 if i' \<ge> len then Some (- 127) else sse2_loop ?m s len i') \<noteq> None"
    if "byte_prologue 4 ?m s len 0 = Some (Aligned i)" "i < len" for i
  proof -
    from that have i: "0 < i" "(s + i) mod 4 = 0"
      using byte_prologue_Aligned [of 4 ?m s len 0 i] by simp_all
    with that have len: "1 \<le> len" by simp
    then have "\<And>j. - 4 < j \<Longrightarrow> j < len \<Longrightarrow> (s + j) mod 4 = 0 \<Longrightarrow> readable ?m (s + j) 4"
      using block_load_16_word [of _ len s] by (simp add: readable_guarded)
    then have mid: "mycroft4_until16 ?m s len i \<noteq> None"
      using i by (intro mycroft4_until16_no_fault) simp_all
    from len have blocks:
      "\<And>j. - 16 < j \<Longrightarrow> j < len \<Longrightarrow> (s + j) mod 16 = 0 \<Longrightarrow> readable ?m (s + j) 16"
      using block_load_aligned [of 16 _ len s] by (simp add: readable_guarded)
    have "sse2_loop ?m s len i' \<noteq> None"
      if "mycroft4_until16 ?m s len i = Some (Aligned i')" "i' < len" for i'
    proof -
      from that i have "0 < i'" "(s + i') mod 16 = 0"
        using mycroft4_until16_Aligned [of ?m s len i i'] by simp_all
      then show ?thesis by (intro sse2_loop_no_fault blocks) simp_all
    qed
    with mid show ?thesis
      by (auto split: option.splits prologue.splits)
  qed
  show ?thesis
    unfolding test_sse2_and_mycroft4_def using pro rest
    by (auto split: option.splits prologue.splits simp del: not_None_eq)
qed

lemma test_pure_mycroft4_safe:
  assumes "1 \<le> len \<or> s mod 4 = 0"
  shows "test_pure_mycroft4 (guarded (block_load 4 s len) f) s len \<noteq> None"
proof (cases "1 \<le> len")
  case True
  let ?m = "guarded (block_load 4 s len) f"
  from True have "\<And>j. - 4 < j \<Longrightarrow> j < len \<Longrightarrow> (s + j) mod 4 = 0 \<Longrightarrow> readable ?m (s + j) 4"
    using block_load_aligned [of 4 _ len s] by (simp add: readable_guarded)
  then show ?thesis
    unfolding test_pure_mycroft4_def Let_def
    by (intro pure_mycroft4_loop_no_fault start_aligned start_bound) simp_all
next
  case False
  with assms show ?thesis
    by (simp add: test_pure_mycroft4_def pure_mycroft4_loop.simps [of _ s len _ 0])
qed

lemma test_pure_mycroft_safe:
  assumes "1 \<le> len \<or> s mod 8 = 0"
  shows "test_pure_mycroft (guarded (block_load 8 s len) f) s len \<noteq> None"
proof (cases "1 \<le> len")
  case True
  let ?m = "guarded (block_load 8 s len) f"
  from True have "\<And>j. - 8 < j \<Longrightarrow> j < len \<Longrightarrow> (s + j) mod 8 = 0 \<Longrightarrow> readable ?m (s + j) 8"
    using block_load_aligned [of 8 _ len s] by (simp add: readable_guarded)
  then show ?thesis
    unfolding test_pure_mycroft_def Let_def
    by (intro pure_mycroft_loop_no_fault start_aligned start_bound) simp_all
next
  case False
  with assms show ?thesis
    by (simp add: test_pure_mycroft_def pure_mycroft_loop.simps [of _ s len _ 0])
qed

lemma test_pure_mycroft2_safe:
  assumes "1 \<le> len \<or> s mod 8 = 0"
  shows "test_pure_mycroft2 (guarded (block_load 8 s len) f) s len \<noteq> None"
proof (cases "1 \<le> len")
  case True
  let ?m = "guarded (block_load 8 s len) f"
  from True have "\<And>j. - 8 < j \<Longrightarrow> j < len \<Longrightarrow> (s + j) mod 8 = 0 \<Longrightarrow> readable ?m (s + j) 8"
    using block_load_aligned [of 8 _ len s] by (simp add: readable_guarded)
  then show ?thesis
    unfolding test_pure_mycroft2_def Let_def
    by (intro pure_mycroft2_loop_no_fault start_aligned start_bound) simp_all
next
  case False
  with assms show ?thesis
    by (simp add: test_pure_mycroft2_def pure_mycroft2_loop.simps [of _ s len _ _ 0])
qed

lemma test_pure_twobsse2_safe:
  assumes "1 \<le> len \<or> s mod 16 = 0"
  shows "test_pure_twobsse2 (guarded (block_load 16 s len) f) s len \<noteq> None"
proof (cases "1 \<le> len")
  case True
  let ?m = "guarded (block_load 16 s len) f"
  from True have "\<And>j. - 16 < j \<Longrightarrow> j < len \<Longrightarrow> (s + j) mod 16 = 0 \<Longrightarrow> readable ?m (s + j) 16"
    using block_load_aligned [of 16 _ len s] by (simp add: readable_guarded)
  then show ?thesis
    unfolding test_pure_twobsse2_def Let_def
    by (intro pure_twobsse2_loop_no_fault start_aligned start_bound) simp_all
next
  case False
  with assms show ?thesis
    by (simp add: test_pure_twobsse2_def pure_twobsse2_loop.simps [of _ s len _ _ 0])
qed

lemma test_twosse2_safe: "test_twosse2 (guarded (block_load 16 s len) f) s len \<noteq> None"
proof -
  let ?m = "guarded (block_load 16 s len) f"
  have "pair_prologue 16 ?m s len 0 \<noteq> None"
    by (rule pair_prologue_no_fault) (simp_all add: readable_guarded block_load_byte del: One_nat_def)
  moreover have "\<exists>c. load_byte ?m (s + (i - 1)) = Some c \<and> (\<forall>p. twosse2_loop ?m s len p i \<noteq> None)"
    if "pair_prologue 16 ?m s len 0 = Some (Aligned i)" "i < len - 1" for i
  proof -
    from that have i: "0 < i" "(s + i) mod 16 = 0"
      using pair_prologue_Aligned [of 16 ?m s len 0 i] by simp_all
    with that have "1 \<le> len" by simp
    then have "\<And>j. - 16 < j \<Longrightarrow> j < len \<Longrightarrow> (s + j) mod 16 = 0 \<Longrightarrow> readable ?m (s + j) 16"
      using block_load_aligned [of 16 _ len s] by (simp add: readable_guarded)
    then have "\<And>p. twosse2_loop ?m s len p i \<noteq> None"
      using i by (intro twosse2_loop_no_fault) simp_all
    moreover from i that have "readable ?m (s + (i - 1)) 1"
      by (simp add: readable_guarded block_load_byte del: One_nat_def)
    then have "load_byte ?m (s + (i - 1)) = Some (bytes ?m (s + (i - 1)))"
      by (rule load_byte_readable)
    ultimately show ?thesis by blast
  qed
  ultimately show ?thesis
    unfolding test_twosse2_def twosse2_returned_def
    by (fastforce split: option.splits prologue.splits)
qed

lemma test_twobsse2_safe: "test_twobsse2 (guarded (block_load 16 s len) f) s len \<noteq> None"
proof -
  let ?m = "guarded (block_load 16 s len) f"
  have "pair_prologue 16 ?m s len 0 \<noteq> None"
    by (rule pair_prologue_no_fault) (simp_all add: readable_guarded block_load_byte del: One_nat_def)
  moreover have "\<exists>c. load_byte ?m (s + (i - 1)) = Some c \<and> (\<forall>p. twobsse2_loop ?m s len p i \<noteq> None)"
    if "pair_prologue 16 ?m s len 0 = Some (Aligned i)" "i < len - 1" for i
  proof -
    from that have i: "0 < i" "(s + i) mod 16 = 0"
      using pair_prologue_Aligned [of 16 ?m s len 0 i] by simp_all
    with that have "1 \<le> len" by simp
    then have "\<And>j. - 16 < j \<Longrightarrow> j < len \<Longrightarrow> (s + j) mod 16 = 0 \<Longrightarrow> readable ?m (s + j) 16"
      using block_load_aligned [of 16 _ len s] by (simp add: readable_guarded)
    then have "\<And>p. twobsse2_loop ?m s len p i \<noteq> None"
      using i by (intro twobsse2_loop_no_fault) simp_all
    moreover from i that have "readable ?m (s + (i - 1)) 1"
      by (simp add: readable_guarded block_load_byte del: One_nat_def)
    then have "load_byte ?m (s + (i - 1)) = Some (bytes ?m (s + (i - 1)))"
      by (rule load_byte_readable)
    ultimately show ?thesis by blast
  qed
  ultimately show ?thesis
    unfolding test_twobsse2_def
    by (fastforce split: option.splits prologue.splits)
qed

lemma test_mycroft2_safe: "test_mycroft2 (guarded (mycroft2_load s len) f) s len \<noteq> None"
proof -
  let ?m = "guarded (mycroft2_load s len) f"
  have "pair_prologue 8 ?m s len 0 \<noteq> None"
    by (rule pair_prologue_no_fault)
      (simp_all add: readable_guarded mycroft2_load_byte del: One_nat_def)
  moreover have "mycroft2_loop ?m s len i \<noteq> None"
    if "pair_prologue 8 ?m s len 0 = Some (Aligned i)" "i < len - 1" for i
  proof -
    from that have i: "0 < i" "(s + i) mod 8 = 0"
      using pair_prologue_Aligned [of 8 ?m s len 0 i] by simp_all
    have "\<And>j. 0 < j \<Longrightarrow> j < len \<Longrightarrow> (s + j) mod 8 = 0 \<Longrightarrow>
             readable ?m (s + j - 1) 8 \<and> readable ?m (s + j) 8"
      by (simp add: readable_guarded mycroft2_load_word)
    then show ?thesis using i by (intro mycroft2_loop_no_fault) simp_all
  qed
  ultimately show ?thesis
    unfolding test_mycroft2_def by (auto split: option.splits prologue.splits)
qed

subsection \<open>The borrow chain of the word trick\<close>

lemma small_div_256:
  fixes r :: int
  assumes "- 256 \<le> r" "r < 256"
  shows "r div 256 = - of_bool (r < 0)"
proof (cases "r < 0")
  case True
  with assms have "(r + 256) div 256 = 0" by simp
  then have "r div 256 = - 1" by simp
  with True show ?thesis by simp
next
  case False
  with assms show ?thesis by simp
qed

lemma borrow_step:
  fixes A O' :: int and b :: bool
  assumes "0 \<le> A"
  shows "(A - (1 + 256 * O') - of_bool b) div 256 =
         A div 256 - O' - of_bool (A mod 256 = 0 \<or> (A mod 256 = 1 \<and> b))"
proof -
  define a0 where "a0 = A mod 256"
  define r where "r = a0 - 1 - of_bool b"
  have a0: "0 \<le> a0" "a0 < 256" by (simp_all add: a0_def)
  have A: "A = 256 * (A div 256) + a0" by (simp add: a0_def)
  have "A - (1 + 256 * O') - of_bool b = r + 256 * (A div 256 - O')"
    by (subst A) (simp add: r_def algebra_simps)
  then have "(A - (1 + 256 * O') - of_bool b) div 256 = r div 256 + (A div 256 - O')"
    by simp
  moreover from a0 have "- 256 \<le> r" "r < 256" by (auto simp: r_def)
  then have "r div 256 = - of_bool (r < 0)" by (rule small_div_256)
  moreover from a0 have "r < 0 \<longleftrightarrow> a0 = 0 \<or> (a0 = 1 \<and> b)"
    by (auto simp: r_def)
  ultimately show ?thesis by (simp add: a0_def)
qed

lemma sub_ones_div:
  assumes "0 \<le> X" "k \<le> n"
  shows "(X - ones_int n) div 256 ^ k = X div 256 ^ k - ones_int (n - k) - of_bool (borrow X k)"
  using assms(2)
proof (induction k)
  case 0
  show ?case by simp
next
  case (Suc k)
  then obtain m where m: "n - k = Suc m" "n - Suc k = m"
    by (cases "n - k") auto
  have "(X - ones_int n) div 256 ^ Suc k = (X - ones_int n) div 256 ^ k div 256"
    by (simp only: power_Suc2) (simp add: zdiv_zmult2_eq)
  also from Suc have "\<dots> = (X div 256 ^ k - ones_int (n - k) - of_bool (borrow X k)) div 256"
    by simp
  also have "\<dots> = (X div 256 ^ k - (1 + 256 * ones_int m) - of_bool (borrow X k)) div 256"
    by (simp add: m)
  also have "\<dots> = X div 256 ^ k div 256 - ones_int m
       - of_bool (X div 256 ^ k mod 256 = 0 \<or> (X div 256 ^ k mod 256 = 1 \<and> borrow X k))"
    using assms(1) by (intro borrow_step) (simp add: pos_imp_zdiv_nonneg_iff)
  also have "X div 256 ^ k div 256 = X div 256 ^ Suc k"
    by (simp only: power_Suc2) (simp add: zdiv_zmult2_eq)
  finally show ?case by (simp add: m)
qed

lemma bit7_low_byte:
  fixes r q :: int
  shows "bit (r + 256 * q) 7 \<longleftrightarrow> bit r 7"
proof -
  have "take_bit 8 (r + 256 * q) = take_bit 8 r"
    by (simp add: take_bit_eq_mod)
  then have "bit (take_bit 8 (r + 256 * q)) 7 = bit (take_bit 8 r) 7" by simp
  then show ?thesis by (simp add: bit_take_bit_iff)
qed

lemma bit7_small:
  fixes r :: int
  assumes "- 128 \<le> r" "r < 256"
  shows "bit r 7 \<longleftrightarrow> r < 0 \<or> 128 \<le> r"
proof -
  have b: "bit r 7 \<longleftrightarrow> odd (r div 128)" by (simp add: bit_iff_odd)
  consider "r < 0" | "0 \<le> r \<and> r < 128" | "128 \<le> r" by linarith
  then show ?thesis
  proof cases
    case 1
    with assms have "(r + 128) div 128 = 0" by simp
    then have "r div 128 = - 1" by simp
    with 1 b show ?thesis by simp
  next
    case 2
    with b show ?thesis by simp
  next
    case 3
    with assms have "(r - 128) div 128 = 0" by simp
    then have "r div 128 = 1" by simp
    with 3 b show ?thesis by simp
  qed
qed

lemma bit_byte_index: "bit (Y::int) (8 * k + 7) \<longleftrightarrow> bit (Y div 256 ^ k) 7"
proof -
  have "(256::int) ^ k = 2 ^ (8 * k)" by (simp add: power_mult)
  then have "Y div 256 ^ k = drop_bit (8 * k) Y" by (simp add: drop_bit_eq_div)
  then show ?thesis by (simp add: bit_drop_bit_eq add.commute)
qed

lemma flag_iff_borrow:
  assumes "0 \<le> X" "k < n"
  shows "bit (X - ones_int n) (8 * k + 7) \<and> \<not> bit X (8 * k + 7) \<longleftrightarrow> borrow X (Suc k)"
proof -
  define A where "A = X div 256 ^ k"
  define a0 where "a0 = A mod 256"
  define b where "b = borrow X k"
  from assms obtain m where m: "n - k = Suc m" by (cases "n - k") auto
  have a0: "0 \<le> a0" "a0 < 256" by (simp_all add: a0_def)
  have A: "A = a0 + 256 * (A div 256)" by (simp add: a0_def)
  from assms have "(X - ones_int n) div 256 ^ k = A - ones_int (n - k) - of_bool b"
    by (simp add: sub_ones_div A_def b_def)
  also have "\<dots> = (a0 - 1 - of_bool b) + 256 * (A div 256 - ones_int m)"
    by (subst A) (simp add: m algebra_simps)
  finally have "bit (X - ones_int n) (8 * k + 7) \<longleftrightarrow> bit (a0 - 1 - of_bool b) 7"
    by (simp only: bit_byte_index bit7_low_byte)
  also from a0 have "\<dots> \<longleftrightarrow> a0 - 1 - of_bool b < 0 \<or> 128 \<le> a0 - 1 - of_bool b"
    by (intro bit7_small) auto
  finally have 1: "bit (X - ones_int n) (8 * k + 7) \<longleftrightarrow>
      a0 - 1 - of_bool b < 0 \<or> 128 \<le> a0 - 1 - of_bool b" .
  have "bit X (8 * k + 7) \<longleftrightarrow> bit A 7"
    by (simp only: bit_byte_index A_def)
  also have "\<dots> \<longleftrightarrow> bit a0 7"
    by (subst A) (simp only: bit7_low_byte)
  also from a0 have "\<dots> \<longleftrightarrow> a0 < 0 \<or> 128 \<le> a0"
    by (intro bit7_small) auto
  finally have 2: "bit X (8 * k + 7) \<longleftrightarrow> 128 \<le> a0" using a0 by simp
  have "borrow X (Suc k) \<longleftrightarrow> a0 = 0 \<or> (a0 = 1 \<and> b)"
    by (simp add: a0_def A_def b_def)
  with 1 2 a0 show ?thesis by (cases b) auto
qed

lemma uint_lane: "uint (lane x k) = uint x div 256 ^ k mod 256"
proof -
  have "(256::int) ^ k = 2 ^ (8 * k)" by (simp add: power_mult)
  moreover have "uint (lane x k) = take_bit 8 (drop_bit (8 * k) (take_bit LENGTH('a) (uint x)))"
    unfolding lane_def unsigned_ucast_eq unsigned_drop_bit_eq by simp
  ultimately show ?thesis
    by (simp add: take_bit_eq_mod drop_bit_eq_div)
qed

lemma lane_eq_0_iff: "lane x k = 0 \<longleftrightarrow> uint x div 256 ^ k mod 256 = 0"
  by (simp add: uint_lane [symmetric] uint_0_iff)

lemma lane_eq_1_iff: "lane x k = 1 \<longleftrightarrow> uint x div 256 ^ k mod 256 = 1"
  by (simp add: uint_lane [symmetric] word_uint_eq_iff)

lemma bit_sub_word:
  fixes x y :: "'a::len word"
  shows "bit (x - y) p \<longleftrightarrow> p < LENGTH('a) \<and> bit (uint x - uint y) p"
proof -
  have "bit (x - y) p \<longleftrightarrow> p < LENGTH('a) \<and> bit (uint (x - y)) p"
    by (auto simp: bit_uint_iff dest: bit_imp_le_length)
  also have "uint (x - y) = take_bit LENGTH('a) (uint x - uint y)"
    by (simp add: uint_word_ariths take_bit_eq_mod)
  finally show ?thesis by (auto simp: bit_take_bit_iff)
qed

lemma word_flag_iff_borrow:
  fixes x ones :: "'a::len word"
  assumes "LENGTH('a) = 8 * n" "uint ones = ones_int n" "k < n"
  shows "bit ((x - ones) AND NOT x) (8 * k + 7) \<longleftrightarrow> borrow (uint x) (Suc k)"
proof -
  from assms have p: "8 * k + 7 < LENGTH('a)" by simp
  have "bit ((x - ones) AND NOT x) (8 * k + 7) \<longleftrightarrow>
     bit (uint x - ones_int n) (8 * k + 7) \<and> \<not> bit (uint x) (8 * k + 7)"
    using p assms(2) by (simp add: bit_and_iff bit_not_iff bit_sub_word bit_uint_iff)
  also have "\<dots> \<longleftrightarrow> borrow (uint x) (Suc k)"
    using assms(3) by (intro flag_iff_borrow) simp_all
  finally show ?thesis .
qed

lemma borrow_zero_chain: "borrow (uint x) (Suc k) \<longleftrightarrow> zero_chain x k"
  by (induction k) (simp_all add: lane_eq_0_iff lane_eq_1_iff)

lemma bit_lane: "bit (lane w k) j \<longleftrightarrow> j < 8 \<and> bit w (8 * k + j)"
  by (auto simp: lane_def bit_ucast_iff bit_drop_bit_eq)

lemma lane_xor: "lane (a XOR b) k = lane a k XOR lane b k"
  by (rule bit_word_eqI) (auto simp: bit_lane bit_xor_iff)

lemma bit_le_word:
  "bit (le_word bs :: 'a::len word) n \<longleftrightarrow>
     n < LENGTH('a) \<and> n div 8 < length bs \<and> bit (bs ! (n div 8)) (n mod 8)"
proof -
  have "le_word bs = (word_of_int (horner_sum uint (2 ^ LENGTH(8)) bs) :: 'a word)"
    by (simp add: le_word_def word_rcat_def)
  then show ?thesis
    by (simp only: bit_word_of_int_iff bit_horner_sum_uint_exp_iff) simp
qed

lemma lane_le_word:
  "k < length bs \<Longrightarrow> 8 * length bs \<le> LENGTH('a) \<Longrightarrow> lane (le_word bs :: 'a::len word) k = bs ! k"
proof (rule bit_word_eqI)
  fix j assume a: "k < length bs" "8 * length bs \<le> LENGTH('a)" "j < LENGTH(8)"
  then have "8 * k + j < LENGTH('a)" by simp
  moreover from a have "(8 * k + j) div 8 = k" "(8 * k + j) mod 8 = j" by simp_all
  ultimately show "bit (lane (le_word bs :: 'a word) k) j \<longleftrightarrow> bit (bs ! k) j"
    using a by (simp add: bit_lane bit_le_word)
qed

lemma lane_repeat_byte32: "k < 4 \<Longrightarrow> lane (repeat_byte t :: 32 word) k = t"
  by (simp add: repeat_byte_def lane_le_word)

lemma lane_repeat_byte64: "k < 8 \<Longrightarrow> lane (repeat_byte t :: 64 word) k = t"
  by (simp add: repeat_byte_def lane_le_word)

lemma xor_eq_iff: "a XOR t = c \<longleftrightarrow> a = c XOR t" for a t c :: "'a::len word"
  by (auto simp: bit_eq_iff bit_xor_iff)

lemma zero_chain_xor32:
  "k < 4 \<Longrightarrow> zero_chain (w XOR repeat_byte t :: 32 word) k \<longleftrightarrow> chain w t k"
  by (induction k) (simp_all add: lane_xor lane_repeat_byte32 xor_eq_iff xor.commute [of 1 t])

lemma zero_chain_xor64:
  "k < 8 \<Longrightarrow> zero_chain (w XOR repeat_byte t :: 64 word) k \<longleftrightarrow> chain w t k"
  by (induction k) (simp_all add: lane_xor lane_repeat_byte64 xor_eq_iff xor.commute [of 1 t])

lemma uint_ones32: "uint ones32 = ones_int 4"
  by code_simp

lemma uint_ones64: "uint ones64 = ones_int 8"
  by code_simp

lemma less_4_cases: "k < 4 \<Longrightarrow> k = 0 \<or> k = 1 \<or> k = 2 \<or> k = (3::nat)"
  by arith

lemma less_8_cases:
  "k < 8 \<Longrightarrow> k = 0 \<or> k = 1 \<or> k = 2 \<or> k = 3 \<or> k = 4 \<or> k = 5 \<or> k = 6 \<or> k = (7::nat)"
  by arith

lemma bit_highs32: "k < 4 \<Longrightarrow> bit highs32 (8 * k + 7)"
  by (drule less_4_cases) (auto simp: highs32_def)

lemma bit_highs64: "k < 8 \<Longrightarrow> bit highs64 (8 * k + 7)"
  by (drule less_8_cases) (auto simp: highs64_def)

lemma word_trick32_chain: "k < 4 \<Longrightarrow> bit (word_trick32 w t) (8 * k + 7) \<longleftrightarrow> chain w t k"
proof -
  assume k: "k < 4"
  have "bit (word_trick32 w t) (8 * k + 7) \<longleftrightarrow>
      bit ((w XOR repeat_byte t) - ones32 AND NOT (w XOR repeat_byte t)) (8 * k + 7)"
    using k by (simp add: word_trick32_def Let_def bit_and_iff bit_highs32)
  also have "\<dots> \<longleftrightarrow> borrow (uint (w XOR repeat_byte t :: 32 word)) (Suc k)"
    using k by (intro word_flag_iff_borrow [where n = 4]) (simp_all add: uint_ones32)
  also have "\<dots> \<longleftrightarrow> chain w t k"
    using k by (simp only: borrow_zero_chain zero_chain_xor32)
  finally show ?thesis .
qed

lemma word_trick64_chain: "k < 8 \<Longrightarrow> bit (word_trick64 w t) (8 * k + 7) \<longleftrightarrow> chain w t k"
proof -
  assume k: "k < 8"
  have "bit (word_trick64 w t) (8 * k + 7) \<longleftrightarrow>
      bit ((w XOR repeat_byte t) - ones64 AND NOT (w XOR repeat_byte t)) (8 * k + 7)"
    using k by (simp add: word_trick64_def Let_def bit_and_iff bit_highs64)
  also have "\<dots> \<longleftrightarrow> borrow (uint (w XOR repeat_byte t :: 64 word)) (Suc k)"
    using k by (intro word_flag_iff_borrow [where n = 8]) (simp_all add: uint_ones64)
  also have "\<dots> \<longleftrightarrow> chain w t k"
    using k by (simp only: borrow_zero_chain zero_chain_xor64)
  finally show ?thesis .
qed

lemma lowest_chain_is_target:
  "chain w t k \<Longrightarrow> \<forall>j<k. \<not> chain w t j \<Longrightarrow> lane w k = t"
  by (cases k) auto


subsection \<open>The example buffer\<close>

lemma small_length_35: "small_length = 35"
  by code_simp

lemma small_no_star: "\<forall>j\<in>{0..<16}. small ! nat j \<noteq> star"
  by code_simp

lemma small_16: "small ! 16 = star" "small ! 17 = hash"
  by code_simp+

lemma small_facts:
  assumes "\<forall>j\<in>{0..<35}. readable m (s + j) 1 \<and> bytes m (s + j) = small ! nat j"
  shows "\<forall>j\<in>{0..<16}. \<not> star_at m s j" "star_at m s 16" "star_hash_at m s 16"
proof -
  show "\<forall>j\<in>{0..<16}. \<not> star_at m s j"
  proof
    fix j :: int assume j: "j \<in> {0..<16}"
    then have "j \<in> {0..<35}" by simp
    with assms have "bytes m (s + j) = small ! nat j" by blast
    with small_no_star j show "\<not> star_at m s j" by (simp add: star_at_def)
  qed
  from assms have "bytes m (s + 16) = small ! nat 16" "bytes m (s + 17) = small ! nat 17"
    by simp_all
  then show "star_at m s 16" "star_hash_at m s 16"
    using small_16 by (simp_all add: star_at_def star_hash_at_def add.assoc)
qed

subsection \<open>Find-first-set returns the lowest set bit\<close>

lemma find_upt_lowest:
  "k < n \<Longrightarrow> P k \<Longrightarrow> \<forall>j<k. \<not> P j \<Longrightarrow> find P [0..<n] = Some k"
  by (auto simp: find_Some_iff intro!: exI [of _ k])

lemma ffs_upto_lowest:
  "k < n \<Longrightarrow> bit x k \<Longrightarrow> \<forall>j<k. \<not> bit x j \<Longrightarrow> ffs_upto n x = int k + 1"
  by (simp add: ffs_upto_def find_upt_lowest)

lemma lowest_bit_exists:
  assumes "bit x k"
  obtains k0 where "k0 \<le> k" "bit x k0" "\<forall>j<k0. \<not> bit x j"
proof -
  define k0 where "k0 = (LEAST j. bit x j)"
  from assms have "bit x k0" unfolding k0_def by (rule LeastI)
  moreover from assms have "k0 \<le> k" unfolding k0_def by (rule Least_le)
  moreover have "\<forall>j<k0. \<not> bit x j" unfolding k0_def using not_less_Least by blast
  ultimately show ?thesis using that by blast
qed

lemma int_nonzero_bit: "(x::int) \<noteq> 0 \<Longrightarrow> \<exists>k. bit x k"
  by (auto simp: bit_eq_iff)

lemma word_nonzero_bit: "(x::'a::len word) \<noteq> 0 \<Longrightarrow> \<exists>k. bit x k"
  by (auto simp: bit_eq_iff)

subsection \<open>The vector scanners for one byte return the first asterisk\<close>

lemma block_found:
  assumes inv: "\<forall>j\<in>{0..<i}. \<not> P j"
    and k0: "0 \<le> i + int k0" "P (i + int k0)"
    and low: "\<forall>k<k0. 0 \<le> i + int k \<longrightarrow> \<not> P (i + int k)"
  shows "match_result P len (if i + int k0 \<ge> len then - 127 else i + int k0)"
proof -
  have before: "\<forall>j\<in>{0..<i + int k0}. \<not> P j"
  proof
    fix j assume j: "j \<in> {0..<i + int k0}"
    show "\<not> P j"
    proof (cases "j < i")
      case True
      with j inv show ?thesis by simp
    next
      case False
      define k where "k = nat (j - i)"
      with False j have "k < k0" "j = i + int k" by auto
      with low j show ?thesis by auto
    qed
  qed
  show ?thesis
  proof (cases "i + int k0 \<ge> len")
    case True
    with before have "\<forall>j\<in>{0..<len}. \<not> P j" by auto
    with True show ?thesis by (simp add: match_result_none)
  next
    case False
    with k0 before show ?thesis by (simp add: match_result_found)
  qed
qed

lemma block_none:
  assumes inv: "\<forall>j\<in>{0..<i}. \<not> P j"
    and none: "\<forall>k<n. 0 \<le> i + int k \<longrightarrow> \<not> P (i + int k)"
  shows "\<forall>j\<in>{0..<i + int n}. \<not> P j"
proof
  fix j assume j: "j \<in> {0..<i + int n}"
  show "\<not> P j"
  proof (cases "j < i")
    case True
    with j inv show ?thesis by simp
  next
    case False
    define k where "k = nat (j - i)"
    with False j have "k < n" "j = i + int k" by auto
    with none j show ?thesis by auto
  qed
qed

lemma bit_0xffff: "bit (0xffff::int) k \<longleftrightarrow> k < 16"
proof -
  have "(0xffff::int) = mask 16" by (simp add: mask_eq_exp_minus_1)
  then show ?thesis by (simp only: bit_mask_iff) simp
qed

lemma bit_star_mask:
  assumes "load_uint128 m (s + i) = Some raw"
  shows "bit (mm_movemask_epi8 (mm_cmpeq_epi8 raw (mm_set1_epi8 star))) k \<longleftrightarrow>
           k < 16 \<and> star_at m s (i + int k)"
  using load_uint128_Some [OF assms]
  by (auto simp: bit_movemask_cmpeq star_at_def add.assoc)

lemma bit_hash_mask:
  assumes "load_uint128 m (s + i) = Some raw"
  shows "bit (mm_movemask_epi8 (mm_cmpeq_epi8 raw (mm_set1_epi8 hash))) k \<longleftrightarrow>
           k < 16 \<and> bytes m (s + (i + int k)) = hash"
  using load_uint128_Some [OF assms]
  by (auto simp: bit_movemask_cmpeq add.assoc)

lemma pure_sse2_loop_correct:
  assumes rd: "\<And>j. - 16 < j \<Longrightarrow> j < len \<Longrightarrow> (s + j) mod 16 = 0 \<Longrightarrow> readable m (s + j) 16"
  shows "- 16 < i \<Longrightarrow> (s + i) mod 16 = 0 \<Longrightarrow> \<forall>k<16. bit am k \<longleftrightarrow> 0 \<le> i + int k \<Longrightarrow>
     \<forall>j\<in>{0..<i}. \<not> star_at m s j \<Longrightarrow>
     \<exists>r. pure_sse2_loop m s len am i = Some r \<and> match_result (star_at m s) len r"
proof (induction "nat (len - i)" arbitrary: i am rule: less_induct)
  case less
  show ?case
  proof (cases "i < len")
    case False
    with less.prems have "\<forall>j\<in>{0..<len}. \<not> star_at m s j" by auto
    with False show ?thesis
      by (simp add: pure_sse2_loop.simps [of m s len am i] match_result_none)
  next
    case True
    with less.prems obtain raw where raw: "load_uint128 m (s + i) = Some raw"
      using load_uint128_readable [OF rd [of i]] by auto
    define bits where
      "bits = mm_movemask_epi8 (mm_cmpeq_epi8 raw (mm_set1_epi8 star)) AND am"
    have bits: "bit bits k \<longleftrightarrow> k < 16 \<and> star_at m s (i + int k) \<and> 0 \<le> i + int k" for k
      using less.prems(3) by (auto simp: bits_def bit_and_iff bit_star_mask [OF raw])
    show ?thesis
    proof (cases "bits = 0")
      case True
      then have "\<forall>k<16. 0 \<le> i + int k \<longrightarrow> \<not> star_at m s (i + int k)"
        using bits by (auto simp: bit_eq_iff)
      with less.prems(4) have "\<forall>j\<in>{0..<i + int 16}. \<not> star_at m s j"
        by (rule block_none)
      then have inv: "\<forall>j\<in>{0..<i + 16}. \<not> star_at m s j" by simp
      from \<open>i < len\<close> have "nat (len - (i + 16)) < nat (len - i)" by simp
      moreover from less.prems have "- 16 < i + 16" by simp
      moreover from less.prems have "(s + (i + 16)) mod 16 = 0" by presburger
      moreover from less.prems have "\<forall>k<16. bit (0xffff::int) k \<longleftrightarrow> 0 \<le> i + 16 + int k"
        by (simp add: bit_0xffff)
      ultimately have "\<exists>r. pure_sse2_loop m s len 0xffff (i + 16) = Some r \<and>
          match_result (star_at m s) len r"
        using inv by (rule less.hyps)
      with \<open>i < len\<close> raw True show ?thesis
        by (simp add: pure_sse2_loop.simps [of m s len am i] Let_def bits_def)
    next
      case False
      then obtain k where "bit bits k" by (auto dest: int_nonzero_bit)
      then obtain k0 where k0: "bit bits k0" "\<forall>j<k0. \<not> bit bits j"
        by (rule lowest_bit_exists)
      from k0(1) bits have k16: "k0 < 16" by simp
      then have ffs: "builtin_ffs bits = int k0 + 1"
        using k0 by (simp add: builtin_ffs_def ffs_upto_lowest)
      from k0 bits k16 have "0 \<le> i + int k0" "star_at m s (i + int k0)"
        "\<forall>k<k0. 0 \<le> i + int k \<longrightarrow> \<not> star_at m s (i + int k)"
        by auto
      with less.prems(4)
      have "match_result (star_at m s) len (if i + int k0 \<ge> len then - 127 else i + int k0)"
        by (rule block_found)
      with \<open>i < len\<close> raw False ffs show ?thesis
        by (simp add: pure_sse2_loop.simps [of m s len am i] Let_def bits_def [symmetric]
            split: if_splits)
    qed
  qed
qed

lemma sse2_loop_correct:
  assumes rd: "\<And>j. 0 < j \<Longrightarrow> j < len \<Longrightarrow> (s + j) mod 16 = 0 \<Longrightarrow> readable m (s + j) 16"
  shows "0 < i \<Longrightarrow> (s + i) mod 16 = 0 \<Longrightarrow> \<forall>j\<in>{0..<i}. \<not> star_at m s j \<Longrightarrow>
     \<exists>r. sse2_loop m s len i = Some r \<and> match_result (star_at m s) len r"
proof (induction "nat (len - i)" arbitrary: i rule: less_induct)
  case less
  show ?case
  proof (cases "i < len")
    case False
    with less.prems have "\<forall>j\<in>{0..<len}. \<not> star_at m s j" by auto
    with False show ?thesis
      by (simp add: sse2_loop.simps [of m s len i] match_result_none)
  next
    case True
    with less.prems obtain raw where raw: "load_uint128 m (s + i) = Some raw"
      using load_uint128_readable [OF rd [of i]] by auto
    define bits where "bits = mm_movemask_epi8 (mm_cmpeq_epi8 raw (mm_set1_epi8 star))"
    have bits: "bit bits k \<longleftrightarrow> k < 16 \<and> star_at m s (i + int k)" for k
      by (simp add: bits_def bit_star_mask [OF raw])
    show ?thesis
    proof (cases "bits = 0")
      case True
      then have "\<forall>k<16. 0 \<le> i + int k \<longrightarrow> \<not> star_at m s (i + int k)"
        using bits by (auto simp: bit_eq_iff)
      with less.prems(3) have "\<forall>j\<in>{0..<i + int 16}. \<not> star_at m s j"
        by (rule block_none)
      then have inv: "\<forall>j\<in>{0..<i + 16}. \<not> star_at m s j" by simp
      from \<open>i < len\<close> have "nat (len - (i + 16)) < nat (len - i)" by simp
      moreover from less.prems have "0 < i + 16" by simp
      moreover from less.prems have "(s + (i + 16)) mod 16 = 0" by presburger
      ultimately have "\<exists>r. sse2_loop m s len (i + 16) = Some r \<and>
          match_result (star_at m s) len r"
        using inv by (rule less.hyps)
      with \<open>i < len\<close> raw True show ?thesis
        by (simp add: sse2_loop.simps [of m s len i] Let_def bits_def)
    next
      case False
      then obtain k where "bit bits k" by (auto dest: int_nonzero_bit)
      then obtain k0 where k0: "bit bits k0" "\<forall>j<k0. \<not> bit bits j"
        by (rule lowest_bit_exists)
      from k0(1) bits have k16: "k0 < 16" by simp
      then have ffs: "builtin_ffs bits = int k0 + 1"
        using k0 by (simp add: builtin_ffs_def ffs_upto_lowest)
      from k0 bits k16 less.prems(1) have "0 \<le> i + int k0" "star_at m s (i + int k0)"
        "\<forall>k<k0. 0 \<le> i + int k \<longrightarrow> \<not> star_at m s (i + int k)"
        by auto
      with less.prems(3)
      have "match_result (star_at m s) len (if i + int k0 \<ge> len then - 127 else i + int k0)"
        by (rule block_found)
      with \<open>i < len\<close> raw False ffs show ?thesis
        by (simp add: sse2_loop.simps [of m s len i] Let_def bits_def [symmetric]
            split: if_splits)
    qed
  qed
qed

lemma byte_prologue_correct:
  assumes rd: "\<And>j. 0 \<le> j \<Longrightarrow> j < len \<Longrightarrow> readable m (s + j) 1"
  shows "0 \<le> i \<Longrightarrow> \<forall>j\<in>{0..<i}. \<not> star_at m s j \<Longrightarrow>
     \<exists>p. byte_prologue B m s len i = Some p \<and> prologue_ok (star_at m s) len s B i p"
proof (induction "nat (len - i)" arbitrary: i rule: less_induct)
  case less
  show ?case
  proof (cases "i < len")
    case False
    with less.prems show ?thesis
      by (simp add: byte_prologue.simps [of B m s len i] prologue_ok_def)
  next
    case True
    with less.prems have ld: "load_byte m (s + i) = Some (bytes m (s + i))"
      by (intro load_byte_readable rd)
    show ?thesis
    proof (cases "star_at m s i")
      case True
      with \<open>i < len\<close> less.prems have "match_result (star_at m s) len i"
        by (intro match_result_found) simp_all
      with True \<open>i < len\<close> ld show ?thesis
        by (simp add: byte_prologue.simps [of B m s len i] prologue_ok_def star_at_def)
    next
      case False
      with less.prems have inv: "\<forall>j\<in>{0..<i + 1}. \<not> star_at m s j"
        by (intro none_before_Suc)
      show ?thesis
      proof (cases "(s + (i + 1)) mod B = 0")
        case True
        with False \<open>i < len\<close> ld inv less.prems(1) show ?thesis
          by (simp add: byte_prologue.simps [of B m s len i] prologue_ok_def star_at_def)
      next
        case nal: False
        from \<open>i < len\<close> have "nat (len - (i + 1)) < nat (len - i)" by simp
        moreover from less.prems have "0 \<le> i + 1" by simp
        ultimately have "\<exists>p. byte_prologue B m s len (i + 1) = Some p \<and>
            prologue_ok (star_at m s) len s B (i + 1) p"
          using inv by (rule less.hyps)
        then obtain p where p: "byte_prologue B m s len (i + 1) = Some p"
          "prologue_ok (star_at m s) len s B (i + 1) p" by blast
        from p(2) have "prologue_ok (star_at m s) len s B i p"
          by (auto simp: prologue_ok_def split: prologue.splits)
        with p(1) False nal \<open>i < len\<close> ld show ?thesis
          by (simp add: byte_prologue.simps [of B m s len i] star_at_def)
      qed
    qed
  qed
qed

lemma test_pure_sse2_correct:
  assumes rd: "\<And>j. - 16 < j \<Longrightarrow> j < len \<Longrightarrow> (s + j) mod 16 = 0 \<Longrightarrow> readable m (s + j) 16"
  shows "\<exists>r. test_pure_sse2 m s len = Some r \<and> match_result (star_at m s) len r"
proof -
  have "\<forall>k<16. bit (push_bit (nat (s mod 16)) (0xffff::int)) k \<longleftrightarrow> 0 \<le> - (s mod 16) + int k"
    by (auto simp: bit_push_bit_iff bit_0xffff)
  moreover have "\<forall>j\<in>{0..<- (s mod 16)}. \<not> star_at m s j" by simp
  ultimately show ?thesis
    unfolding test_pure_sse2_def Let_def
    by (intro pure_sse2_loop_correct rd start_aligned start_bound) simp_all
qed

lemma test_sse2_correct:
  assumes rd1: "\<And>j. 0 \<le> j \<Longrightarrow> j < len \<Longrightarrow> readable m (s + j) 1"
    and rd: "\<And>j. 0 < j \<Longrightarrow> j < len \<Longrightarrow> (s + j) mod 16 = 0 \<Longrightarrow> readable m (s + j) 16"
  shows "\<exists>r. test_sse2 m s len = Some r \<and> match_result (star_at m s) len r"
proof -
  have "\<exists>p. byte_prologue 16 m s len 0 = Some p \<and> prologue_ok (star_at m s) len s 16 0 p"
    by (rule byte_prologue_correct [OF rd1]) simp_all
  then obtain p where p: "byte_prologue 16 m s len 0 = Some p"
    "prologue_ok (star_at m s) len s 16 0 p" by blast
  show ?thesis
  proof (cases p)
    case (Done r)
    with p show ?thesis by (simp add: test_sse2_def prologue_ok_def)
  next
    case (Aligned i)
    with p(2) have i: "\<forall>j\<in>{0..<i}. \<not> star_at m s j" "i < len \<longrightarrow> 0 < i \<and> (s + i) mod 16 = 0"
      by (simp_all add: prologue_ok_def)
    show ?thesis
    proof (cases "i < len")
      case True
      with i have "\<exists>r. sse2_loop m s len i = Some r \<and> match_result (star_at m s) len r"
        by (intro sse2_loop_correct rd) simp_all
      with True p(1) Aligned show ?thesis by (simp add: test_sse2_def)
    next
      case False
      with i(1) have "\<forall>j\<in>{0..<len}. \<not> star_at m s j" by auto
      then have "match_result (star_at m s) len (- 127)" by (rule match_result_none)
      with False p(1) Aligned show ?thesis by (simp add: test_sse2_def)
    qed
  qed
qed

subsection \<open>The word-trick scanners behind a bytewise prologue return the first asterisk\<close>

lemma load_uint32_lanes:
  assumes "load_uint32 m a = Some w" "k < 4"
  shows "lane w k = bytes m (a + int k)"
proof -
  from assms(1) obtain bs where bs: "load_bytes m a 4 = Some bs" "w = le_word bs"
    by (auto simp: load_uint32_def)
  with assms(2) show ?thesis
    using load_bytes_Some [OF bs(1)] by (simp add: lane_le_word)
qed

lemma load_uint64_lanes:
  assumes "load_uint64 m a = Some w" "k < 8"
  shows "lane w k = bytes m (a + int k)"
proof -
  from assms(1) obtain bs where bs: "load_bytes m a 8 = Some bs" "w = le_word bs"
    by (auto simp: load_uint64_def)
  with assms(2) show ?thesis
    using load_bytes_Some [OF bs(1)] by (simp add: lane_le_word)
qed

lemma repeat_star32: "repeat_byte star = mask32"
  by code_simp

lemma repeat_star64: "repeat_byte star = mask_star"
  by code_simp

lemma repeat_hash64: "repeat_byte hash = mask_hash"
  by code_simp

lemma bit_0x80: "bit (0x80::byte) j \<longleftrightarrow> j = 7"
proof -
  have "(0x80::byte) = 2 ^ 7" by simp
  then show ?thesis by (simp only: bit_exp_iff) auto
qed

lemma highs32_le_word: "highs32 = le_word (replicate 4 0x80)"
  by code_simp

lemma highs64_le_word: "highs64 = le_word (replicate 8 0x80)"
  by code_simp

lemma top_bit_index: "p div 8 < n \<Longrightarrow> p mod 8 = 7 \<Longrightarrow> \<exists>k<n. p = 8 * k + (7::nat)"
  by (rule exI [of _ "p div 8"]) (use div_mult_mod_eq [of p 8] in simp)

lemma bit_highs32_only: "bit highs32 p \<Longrightarrow> \<exists>k<4. p = 8 * k + 7"
proof -
  assume "bit highs32 p"
  then have "p div 8 < 4" "bit (0x80::byte) (p mod 8)"
    by (auto simp: highs32_le_word bit_le_word)
  then show ?thesis using bit_0x80 [of "p mod 8"] by (intro top_bit_index) blast+
qed

lemma bit_highs64_only: "bit highs64 p \<Longrightarrow> \<exists>k<8. p = 8 * k + 7"
proof -
  assume "bit highs64 p"
  then have "p div 8 < 8" "bit (0x80::byte) (p mod 8)"
    by (auto simp: highs64_le_word bit_le_word)
  then show ?thesis using bit_0x80 [of "p mod 8"] by (intro top_bit_index) blast+
qed

text \<open>A mask whose bits are top bits of lanes: what find-first-set returns.\<close>

lemma ffs_of_lane_mask:
  fixes x :: "'a::len word"
  assumes only: "\<And>p. bit x p \<Longrightarrow> \<exists>k<n. p = 8 * k + 7" and nz: "x \<noteq> 0" and n: "8 * n \<le> N"
  shows "\<exists>k0<n. lowest_flagged x k0 \<and> drop_bit 3 (ffs_upto N x) = int k0 + 1"
proof -
  from nz obtain p where "bit x p" by (auto dest: word_nonzero_bit)
  then obtain p0 where p0: "bit x p0" "\<forall>j<p0. \<not> bit x j"
    by (rule lowest_bit_exists)
  from only [OF p0(1)] obtain k0 where k0: "k0 < n" "p0 = 8 * k0 + 7" by blast
  with n have "p0 < N" by simp
  with p0 have "ffs_upto N x = int p0 + 1" by (intro ffs_upto_lowest)
  with k0 have "drop_bit 3 (ffs_upto N x) = int k0 + 1"
    by (simp add: drop_bit_eq_div)
  moreover from p0 k0 have "lowest_flagged x k0"
    by (auto simp: lowest_flagged_def flagged_def)
  ultimately show ?thesis using k0(1) by blast
qed

lemma target_flagged32: "k < 4 \<Longrightarrow> lane w k = t \<Longrightarrow> flagged (word_trick32 w t) k"
proof -
  assume k: "k < 4" and "lane w k = t"
  then have "chain w t k" by (cases k) simp_all
  with k show ?thesis by (simp only: flagged_def word_trick32_chain)
qed

lemma target_flagged64: "k < 8 \<Longrightarrow> lane w k = t \<Longrightarrow> flagged (word_trick64 w t) k"
proof -
  assume k: "k < 8" and "lane w k = t"
  then have "chain w t k" by (cases k) simp_all
  with k show ?thesis by (simp only: flagged_def word_trick64_chain)
qed

lemma not_flagged_not_target32:
  "k < 4 \<Longrightarrow> \<not> flagged (word_trick32 w t) k \<Longrightarrow> lane w k \<noteq> t"
  using target_flagged32 by blast

lemma not_flagged_not_target64:
  "k < 8 \<Longrightarrow> \<not> flagged (word_trick64 w t) k \<Longrightarrow> lane w k \<noteq> t"
  using target_flagged64 by blast

lemma lowest_flagged_target32:
  assumes "k < 4" "lowest_flagged (word_trick32 w t) k"
  shows "lane w k = t" "\<forall>j<k. lane w j \<noteq> t"
proof -
  from assms have "chain w t k" "\<forall>j<k. \<not> chain w t j"
    by (simp_all add: lowest_flagged_def flagged_def word_trick32_chain)
  then show "lane w k = t" by (rule lowest_chain_is_target)
  from assms have "\<And>j. j < k \<Longrightarrow> j < 4 \<and> \<not> flagged (word_trick32 w t) j"
    by (simp add: lowest_flagged_def)
  then show "\<forall>j<k. lane w j \<noteq> t"
    using not_flagged_not_target32 by blast
qed

lemma lowest_flagged_target64:
  assumes "k < 8" "lowest_flagged (word_trick64 w t) k"
  shows "lane w k = t" "\<forall>j<k. lane w j \<noteq> t"
proof -
  from assms have "chain w t k" "\<forall>j<k. \<not> chain w t j"
    by (simp_all add: lowest_flagged_def flagged_def word_trick64_chain)
  then show "lane w k = t" by (rule lowest_chain_is_target)
  from assms have "\<And>j. j < k \<Longrightarrow> j < 8 \<and> \<not> flagged (word_trick64 w t) j"
    by (simp add: lowest_flagged_def)
  then show "\<forall>j<k. lane w j \<noteq> t"
    using not_flagged_not_target64 by blast
qed

lemma word_trick32_only: "bit (word_trick32 w t) p \<Longrightarrow> \<exists>k<4. p = 8 * k + 7"
  by (rule bit_highs32_only) (simp add: word_trick32_def Let_def bit_and_iff)

lemma word_trick64_only: "bit (word_trick64 w t) p \<Longrightarrow> \<exists>k<8. p = 8 * k + 7"
  by (rule bit_highs64_only) (simp add: word_trick64_def Let_def bit_and_iff)

lemma word_trick32_zero: "word_trick32 w t = 0 \<Longrightarrow> k < 4 \<Longrightarrow> lane w k \<noteq> t"
  by (rule not_flagged_not_target32) (simp_all add: flagged_def)

lemma word_trick64_zero: "word_trick64 w t = 0 \<Longrightarrow> k < 8 \<Longrightarrow> lane w k \<noteq> t"
  by (rule not_flagged_not_target64) (simp_all add: flagged_def)

lemma mycroft4_loop_correct:
  assumes rd: "\<And>j. 0 < j \<Longrightarrow> j < len \<Longrightarrow> (s + j) mod 4 = 0 \<Longrightarrow> readable m (s + j) 4"
  shows "0 < i \<Longrightarrow> (s + i) mod 4 = 0 \<Longrightarrow> \<forall>j\<in>{0..<i}. \<not> star_at m s j \<Longrightarrow>
     \<exists>r. mycroft4_loop m s len i = Some r \<and> match_result (star_at m s) len r"
proof (induction "nat (len - i)" arbitrary: i rule: less_induct)
  case less
  show ?case
  proof (cases "i < len")
    case False
    with less.prems have "\<forall>j\<in>{0..<len}. \<not> star_at m s j" by auto
    with False show ?thesis
      by (simp add: mycroft4_loop.simps [of m s len i] match_result_none)
  next
    case True
    with less.prems obtain w where w: "load_uint32 m (s + i) = Some w"
      using load_uint32_readable [OF rd [of i]] by auto
    define x where "x = word_trick32 w star"
    have x: "(w XOR mask32) - ones32 AND NOT (w XOR mask32) AND highs32 = x"
      by (simp add: x_def word_trick32_def Let_def repeat_star32)
    have lanes: "lane w k = star \<longleftrightarrow> star_at m s (i + int k)" if "k < 4" for k
      using load_uint32_lanes [OF w that] by (simp add: star_at_def add.assoc)
    show ?thesis
    proof (cases "x = 0")
      case True
      then have "\<forall>k<4. 0 \<le> i + int k \<longrightarrow> \<not> star_at m s (i + int k)"
        using lanes word_trick32_zero [of w star] by (auto simp: x_def)
      with less.prems(3) have "\<forall>j\<in>{0..<i + int 4}. \<not> star_at m s j"
        by (rule block_none)
      then have inv: "\<forall>j\<in>{0..<i + 4}. \<not> star_at m s j" by simp
      from \<open>i < len\<close> have "nat (len - (i + 4)) < nat (len - i)" by simp
      moreover from less.prems have "0 < i + 4" by simp
      moreover from less.prems have "(s + (i + 4)) mod 4 = 0" by presburger
      ultimately have "\<exists>r. mycroft4_loop m s len (i + 4) = Some r \<and> match_result (star_at m s) len r"
        using inv by (rule less.hyps)
      with \<open>i < len\<close> w True show ?thesis
        by (simp add: mycroft4_loop.simps [of m s len i] Let_def x)
    next
      case False
      moreover have "\<And>p. bit x p \<Longrightarrow> \<exists>k<4. p = 8 * k + 7"
        unfolding x_def by (rule word_trick32_only)
      ultimately have "\<exists>k0<4. lowest_flagged x k0 \<and> drop_bit 3 (ffs_upto 32 x) = int k0 + 1"
        by (intro ffs_of_lane_mask) simp_all
      then obtain k0 where k0: "k0 < 4" "lowest_flagged x k0"
        "drop_bit 3 (ffs_upto 32 x) = int k0 + 1" by blast
      from k0(1,2) have "lane w k0 = star" "\<forall>j<k0. lane w j \<noteq> star"
        unfolding x_def by (rule lowest_flagged_target32)+
      with k0(1) lanes less.prems(1) have "0 \<le> i + int k0" "star_at m s (i + int k0)"
        "\<forall>k<k0. 0 \<le> i + int k \<longrightarrow> \<not> star_at m s (i + int k)"
        by auto
      with less.prems(3)
      have "match_result (star_at m s) len (if i + int k0 \<ge> len then - 127 else i + int k0)"
        by (rule block_found)
      with \<open>i < len\<close> w False k0(3) show ?thesis
        by (simp add: mycroft4_loop.simps [of m s len i] Let_def x builtin_ffs_def split: if_splits)
    qed
  qed
qed

lemma mycroft_loop_correct:
  assumes rd: "\<And>j. 0 < j \<Longrightarrow> j < len \<Longrightarrow> (s + j) mod 8 = 0 \<Longrightarrow> readable m (s + j) 8"
  shows "0 < i \<Longrightarrow> (s + i) mod 8 = 0 \<Longrightarrow> \<forall>j\<in>{0..<i}. \<not> star_at m s j \<Longrightarrow>
     \<exists>r. mycroft_loop m s len i = Some r \<and> match_result (star_at m s) len r"
proof (induction "nat (len - i)" arbitrary: i rule: less_induct)
  case less
  show ?case
  proof (cases "i < len")
    case False
    with less.prems have "\<forall>j\<in>{0..<len}. \<not> star_at m s j" by auto
    with False show ?thesis
      by (simp add: mycroft_loop.simps [of m s len i] match_result_none)
  next
    case True
    with less.prems obtain w where w: "load_uint64 m (s + i) = Some w"
      using load_uint64_readable [OF rd [of i]] by auto
    define x where "x = word_trick64 w star"
    have x: "(w XOR mask_star) - ones64 AND NOT (w XOR mask_star) AND highs64 = x"
      by (simp add: x_def word_trick64_def Let_def repeat_star64)
    have lanes: "lane w k = star \<longleftrightarrow> star_at m s (i + int k)" if "k < 8" for k
      using load_uint64_lanes [OF w that] by (simp add: star_at_def add.assoc)
    show ?thesis
    proof (cases "x = 0")
      case True
      then have "\<forall>k<8. 0 \<le> i + int k \<longrightarrow> \<not> star_at m s (i + int k)"
        using lanes word_trick64_zero [of w star] by (auto simp: x_def)
      with less.prems(3) have "\<forall>j\<in>{0..<i + int 8}. \<not> star_at m s j"
        by (rule block_none)
      then have inv: "\<forall>j\<in>{0..<i + 8}. \<not> star_at m s j" by simp
      from \<open>i < len\<close> have "nat (len - (i + 8)) < nat (len - i)" by simp
      moreover from less.prems have "0 < i + 8" by simp
      moreover from less.prems have "(s + (i + 8)) mod 8 = 0" by presburger
      ultimately have "\<exists>r. mycroft_loop m s len (i + 8) = Some r \<and> match_result (star_at m s) len r"
        using inv by (rule less.hyps)
      with \<open>i < len\<close> w True show ?thesis
        by (simp add: mycroft_loop.simps [of m s len i] Let_def x)
    next
      case False
      moreover have "\<And>p. bit x p \<Longrightarrow> \<exists>k<8. p = 8 * k + 7"
        unfolding x_def by (rule word_trick64_only)
      ultimately have "\<exists>k0<8. lowest_flagged x k0 \<and> drop_bit 3 (ffs_upto 64 x) = int k0 + 1"
        by (intro ffs_of_lane_mask) simp_all
      then obtain k0 where k0: "k0 < 8" "lowest_flagged x k0"
        "drop_bit 3 (ffs_upto 64 x) = int k0 + 1" by blast
      from k0(1,2) have "lane w k0 = star" "\<forall>j<k0. lane w j \<noteq> star"
        unfolding x_def by (rule lowest_flagged_target64)+
      with k0(1) lanes less.prems(1) have "0 \<le> i + int k0" "star_at m s (i + int k0)"
        "\<forall>k<k0. 0 \<le> i + int k \<longrightarrow> \<not> star_at m s (i + int k)"
        by auto
      with less.prems(3)
      have "match_result (star_at m s) len (if i + int k0 \<ge> len then - 127 else i + int k0)"
        by (rule block_found)
      with \<open>i < len\<close> w False k0(3) show ?thesis
        by (simp add: mycroft_loop.simps [of m s len i] Let_def x builtin_ffsll_def split: if_splits)
    qed
  qed
qed

lemma mycroft4_until16_correct:
  assumes rd: "\<And>j. 0 < j \<Longrightarrow> j < len \<Longrightarrow> (s + j) mod 4 = 0 \<Longrightarrow> readable m (s + j) 4"
  shows "0 < i \<Longrightarrow> (s + i) mod 4 = 0 \<Longrightarrow> \<forall>j\<in>{0..<i}. \<not> star_at m s j \<Longrightarrow>
     \<exists>p. mycroft4_until16 m s len i = Some p \<and> prologue_ok (star_at m s) len s 16 i p"
proof (induction "nat (len - i)" arbitrary: i rule: less_induct)
  case less
  show ?case
  proof (cases "i < len")
    case False
    with less.prems show ?thesis
      by (simp add: mycroft4_until16.simps [of m s len i] prologue_ok_def)
  next
    case True
    with less.prems obtain w where w: "load_uint32 m (s + i) = Some w"
      using load_uint32_readable [OF rd [of i]] by auto
    define x where "x = word_trick32 w star"
    have x: "(w XOR mask32) - ones32 AND NOT (w XOR mask32) AND highs32 = x"
      by (simp add: x_def word_trick32_def Let_def repeat_star32)
    have lanes: "lane w k = star \<longleftrightarrow> star_at m s (i + int k)" if "k < 4" for k
      using load_uint32_lanes [OF w that] by (simp add: star_at_def add.assoc)
    show ?thesis
    proof (cases "x = 0")
      case True
      then have "\<forall>k<4. 0 \<le> i + int k \<longrightarrow> \<not> star_at m s (i + int k)"
        using lanes word_trick32_zero [of w star] by (auto simp: x_def)
      with less.prems(3) have "\<forall>j\<in>{0..<i + int 4}. \<not> star_at m s j"
        by (rule block_none)
      then have inv: "\<forall>j\<in>{0..<i + 4}. \<not> star_at m s j" by simp
      show ?thesis
      proof (cases "(s + (i + 4)) mod 16 = 0")
        case al: True
        with \<open>i < len\<close> w True inv show ?thesis
          by (simp add: mycroft4_until16.simps [of m s len i] Let_def x prologue_ok_def)
      next
        case nal: False
        from \<open>i < len\<close> have "nat (len - (i + 4)) < nat (len - i)" by simp
        moreover from less.prems have "0 < i + 4" by simp
        moreover from less.prems have "(s + (i + 4)) mod 4 = 0" by presburger
        ultimately have "\<exists>p. mycroft4_until16 m s len (i + 4) = Some p \<and>
            prologue_ok (star_at m s) len s 16 (i + 4) p"
          using inv by (rule less.hyps)
        then obtain p where p: "mycroft4_until16 m s len (i + 4) = Some p"
          "prologue_ok (star_at m s) len s 16 (i + 4) p" by blast
        from p(2) have "prologue_ok (star_at m s) len s 16 i p"
          by (auto simp: prologue_ok_def split: prologue.splits)
        with p(1) \<open>i < len\<close> w True nal show ?thesis
          by (simp add: mycroft4_until16.simps [of m s len i] Let_def x)
      qed
    next
      case False
      moreover have "\<And>p. bit x p \<Longrightarrow> \<exists>k<4. p = 8 * k + 7"
        unfolding x_def by (rule word_trick32_only)
      ultimately have "\<exists>k0<4. lowest_flagged x k0 \<and> drop_bit 3 (ffs_upto 32 x) = int k0 + 1"
        by (intro ffs_of_lane_mask) simp_all
      then obtain k0 where k0: "k0 < 4" "lowest_flagged x k0"
        "drop_bit 3 (ffs_upto 32 x) = int k0 + 1" by blast
      from k0(1,2) have "lane w k0 = star" "\<forall>j<k0. lane w j \<noteq> star"
        unfolding x_def by (rule lowest_flagged_target32)+
      with k0(1) lanes less.prems(1) have "0 \<le> i + int k0" "star_at m s (i + int k0)"
        "\<forall>k<k0. 0 \<le> i + int k \<longrightarrow> \<not> star_at m s (i + int k)"
        by auto
      with less.prems(3)
      have "match_result (star_at m s) len (if i + int k0 \<ge> len then - 127 else i + int k0)"
        by (rule block_found)
      with \<open>i < len\<close> w False k0(3) show ?thesis
        by (simp add: mycroft4_until16.simps [of m s len i] Let_def x builtin_ffs_def
            prologue_ok_def split: if_splits)
    qed
  qed
qed

lemma after_byte_prologue:
  assumes rd1: "\<And>j. 0 \<le> j \<Longrightarrow> j < len \<Longrightarrow> readable m (s + j) 1"
    and rest: "\<And>i. 0 < i \<Longrightarrow> i < len \<Longrightarrow> (s + i) mod B = 0 \<Longrightarrow>
       \<forall>j\<in>{0..<i}. \<not> star_at m s j \<Longrightarrow>
       \<exists>r. loop i = Some r \<and> match_result (star_at m s) len r"
  shows "\<exists>r. (case byte_prologue B m s len 0 of
                None \<Rightarrow> None
              | Some (Done r) \<Rightarrow> Some r
              | Some (Aligned i) \<Rightarrow> if i \<ge> len then Some (- 127) else loop i) = Some r \<and>
             match_result (star_at m s) len r"
proof -
  have "\<exists>p. byte_prologue B m s len 0 = Some p \<and> prologue_ok (star_at m s) len s B 0 p"
    by (rule byte_prologue_correct [OF rd1]) simp_all
  then obtain p where p: "byte_prologue B m s len 0 = Some p"
    "prologue_ok (star_at m s) len s B 0 p" by blast
  show ?thesis
  proof (cases p)
    case (Done r)
    with p show ?thesis by (simp add: prologue_ok_def)
  next
    case (Aligned i)
    with p(2) have i: "\<forall>j\<in>{0..<i}. \<not> star_at m s j" "i < len \<longrightarrow> 0 < i \<and> (s + i) mod B = 0"
      by (simp_all add: prologue_ok_def)
    show ?thesis
    proof (cases "i < len")
      case True
      with i have "\<exists>r. loop i = Some r \<and> match_result (star_at m s) len r"
        by (intro rest) simp_all
      with True p(1) Aligned show ?thesis by simp
    next
      case False
      with i(1) have "\<forall>j\<in>{0..<len}. \<not> star_at m s j" by auto
      then have "match_result (star_at m s) len (- 127)" by (rule match_result_none)
      with False p(1) Aligned show ?thesis by simp
    qed
  qed
qed

lemma test_mycroft4_correct:
  assumes rd1: "\<And>j. 0 \<le> j \<Longrightarrow> j < len \<Longrightarrow> readable m (s + j) 1"
    and rd: "\<And>j. 0 < j \<Longrightarrow> j < len \<Longrightarrow> (s + j) mod 4 = 0 \<Longrightarrow> readable m (s + j) 4"
  shows "\<exists>r. test_mycroft4 m s len = Some r \<and> match_result (star_at m s) len r"
  unfolding test_mycroft4_def
  by (rule after_byte_prologue [OF rd1]) (simp_all add: mycroft4_loop_correct [OF rd])

lemma test_mycroft_correct:
  assumes rd1: "\<And>j. 0 \<le> j \<Longrightarrow> j < len \<Longrightarrow> readable m (s + j) 1"
    and rd: "\<And>j. 0 < j \<Longrightarrow> j < len \<Longrightarrow> (s + j) mod 8 = 0 \<Longrightarrow> readable m (s + j) 8"
  shows "\<exists>r. test_mycroft m s len = Some r \<and> match_result (star_at m s) len r"
  unfolding test_mycroft_def
  by (rule after_byte_prologue [OF rd1]) (simp_all add: mycroft_loop_correct [OF rd])

lemma test_sse2_and_mycroft4_correct:
  assumes rd1: "\<And>j. 0 \<le> j \<Longrightarrow> j < len \<Longrightarrow> readable m (s + j) 1"
    and rd4: "\<And>j. 0 < j \<Longrightarrow> j < len \<Longrightarrow> (s + j) mod 4 = 0 \<Longrightarrow> readable m (s + j) 4"
    and rd: "\<And>j. 0 < j \<Longrightarrow> j < len \<Longrightarrow> (s + j) mod 16 = 0 \<Longrightarrow> readable m (s + j) 16"
  shows "\<exists>r. test_sse2_and_mycroft4 m s len = Some r \<and> match_result (star_at m s) len r"
  unfolding test_sse2_and_mycroft4_def
proof (rule after_byte_prologue [OF rd1])
  fix i assume i: "0 < i" "i < len" "(s + i) mod 4 = 0" "\<forall>j\<in>{0..<i}. \<not> star_at m s j"
  then have "\<exists>p. mycroft4_until16 m s len i = Some p \<and> prologue_ok (star_at m s) len s 16 i p"
    by (intro mycroft4_until16_correct rd4)
  then obtain p where p: "mycroft4_until16 m s len i = Some p"
    "prologue_ok (star_at m s) len s 16 i p" by blast
  show "\<exists>r. (case mycroft4_until16 m s len i of
               None \<Rightarrow> None
             | Some (Done r) \<Rightarrow> Some r
             | Some (Aligned i') \<Rightarrow>
                 if i' \<ge> len then Some (- 127) else sse2_loop m s len i') = Some r \<and>
            match_result (star_at m s) len r"
  proof (cases p)
    case (Done r)
    with p show ?thesis by (simp add: prologue_ok_def)
  next
    case (Aligned i')
    with p(2) i(1) have i': "\<forall>j\<in>{0..<i'}. \<not> star_at m s j"
      "i' < len \<longrightarrow> 0 < i' \<and> (s + i') mod 16 = 0"
      by (auto simp: prologue_ok_def)
    show ?thesis
    proof (cases "i' < len")
      case True
      with i' have "\<exists>r. sse2_loop m s len i' = Some r \<and> match_result (star_at m s) len r"
        by (intro sse2_loop_correct rd) simp_all
      with True p(1) Aligned show ?thesis by simp
    next
      case False
      with i'(1) have "\<forall>j\<in>{0..<len}. \<not> star_at m s j" by auto
      then have "match_result (star_at m s) len (- 127)" by (rule match_result_none)
      with False p(1) Aligned show ?thesis by simp
    qed
  qed
qed

subsection \<open>The vector scanners for the pair return the first pair\<close>

lemma pair_prologue_correct:
  assumes rd: "\<And>j. 0 \<le> j \<Longrightarrow> j < len \<Longrightarrow> readable m (s + j) 1"
  shows "0 \<le> i \<Longrightarrow> \<forall>j\<in>{0..<i}. \<not> star_hash_at m s j \<Longrightarrow>
     \<exists>p. pair_prologue B m s len i = Some p \<and>
        prologue_ok (star_hash_at m s) (len - 1) s B i p"
proof (induction "nat (len - i)" arbitrary: i rule: less_induct)
  case less
  show ?case
  proof (cases "i < len - 1")
    case False
    with less.prems show ?thesis
      by (simp add: pair_prologue.simps [of B m s len i] prologue_ok_def)
  next
    case True
    with less.prems have "readable m (s + i) 1" "readable m (s + i + 1) 1"
      by (simp_all add: rd add.assoc del: One_nat_def)
    then have ld: "pair_at m (s + i) = Some (star_hash_at m s i)"
      by (simp add: pair_at_readable star_hash_at_def)
    show ?thesis
    proof (cases "star_hash_at m s i")
      case True
      with \<open>i < len - 1\<close> less.prems have "match_result (star_hash_at m s) (len - 1) i"
        by (intro match_result_found) simp_all
      with True \<open>i < len - 1\<close> ld show ?thesis
        by (simp add: pair_prologue.simps [of B m s len i] prologue_ok_def)
    next
      case False
      with less.prems have inv: "\<forall>j\<in>{0..<i + 1}. \<not> star_hash_at m s j"
        by (intro none_before_Suc)
      show ?thesis
      proof (cases "(s + (i + 1)) mod B = 0")
        case True
        with False \<open>i < len - 1\<close> ld inv less.prems(1) show ?thesis
          by (simp add: pair_prologue.simps [of B m s len i] prologue_ok_def)
      next
        case nal: False
        from \<open>i < len - 1\<close> have "nat (len - (i + 1)) < nat (len - i)" by simp
        moreover from less.prems have "0 \<le> i + 1" by simp
        ultimately have "\<exists>p. pair_prologue B m s len (i + 1) = Some p \<and>
            prologue_ok (star_hash_at m s) (len - 1) s B (i + 1) p"
          using inv by (rule less.hyps)
        then obtain p where p: "pair_prologue B m s len (i + 1) = Some p"
          "prologue_ok (star_hash_at m s) (len - 1) s B (i + 1) p" by blast
        from p(2) have "prologue_ok (star_hash_at m s) (len - 1) s B i p"
          by (auto simp: prologue_ok_def split: prologue.splits)
        with p(1) False nal \<open>i < len - 1\<close> ld show ?thesis
          by (simp add: pair_prologue.simps [of B m s len i])
      qed
    qed
  qed
qed

text \<open>The pair at index \<open>i - 1 + k\<close>, seen from the block that starts at \<open>i\<close>.\<close>

lemma pair_in_block:
  "star_hash_at m s (i - 1 + int k) \<longleftrightarrow>
     star_at m s (i - 1 + int k) \<and> bytes m (s + (i + int k)) = hash"
  by (simp add: star_hash_at_def star_at_def algebra_simps)

lemma twosse2_loop_correct:
  assumes rd: "\<And>j. 0 < j \<Longrightarrow> j < len \<Longrightarrow> (s + j) mod 16 = 0 \<Longrightarrow> readable m (s + j) 16"
  shows "0 < i \<Longrightarrow> (s + i) mod 16 = 0 \<Longrightarrow> bit prev 15 \<longleftrightarrow> star_at m s (i - 1) \<Longrightarrow>
     \<forall>j\<in>{0..<i - 1}. \<not> star_hash_at m s j \<Longrightarrow>
     \<exists>x. twosse2_loop m s len prev i = Some x \<and>
        match_result (star_hash_at m s) (len - 1) (returned_value x)"
proof (induction "nat (len - i)" arbitrary: i prev rule: less_induct)
  case less
  show ?case
  proof (cases "i < len")
    case False
    with less.prems have "\<forall>j\<in>{0..<len - 1}. \<not> star_hash_at m s j" by auto
    with False show ?thesis
      by (simp add: twosse2_loop.simps [of m s len prev i] match_result_none)
  next
    case True
    with less.prems obtain raw where raw: "load_uint128 m (s + i) = Some raw"
      using load_uint128_readable [OF rd [of i]] by auto
    define stars where "stars = mm_movemask_epi8 (mm_cmpeq_epi8 raw (mm_set1_epi8 star))"
    define hashes where "hashes = mm_movemask_epi8 (mm_cmpeq_epi8 raw (mm_set1_epi8 hash))"
    define combined where "combined = push_bit 1 stars AND hashes"
    have stars: "bit stars k \<longleftrightarrow> k < 16 \<and> star_at m s (i + int k)" for k
      by (simp add: stars_def bit_star_mask [OF raw])
    have hashes: "bit hashes k \<longleftrightarrow> k < 16 \<and> bytes m (s + (i + int k)) = hash" for k
      by (simp add: hashes_def bit_hash_mask [OF raw])
    have straddle: "prev AND 0x8000 \<noteq> 0 \<and> hashes AND 1 \<noteq> 0 \<longleftrightarrow> star_hash_at m s (i - 1)"
      using less.prems(3) hashes [of 0] pair_in_block [of m s i 0]
      by (simp add: and_0x8000_iff and_1_iff)
    have pb: "bit (push_bit 1 stars) k \<longleftrightarrow> 1 \<le> k \<and> bit stars (k - 1)" for k
      by (simp only: bit_push_bit_iff) simp
    have c1: "bit combined k \<longleftrightarrow> (1 \<le> k \<and> bit stars (k - 1)) \<and> bit hashes k" for k
      by (simp only: combined_def bit_and_iff pb)
    have combined: "bit combined k \<longleftrightarrow> 1 \<le> k \<and> k < 16 \<and> star_hash_at m s (i - 1 + int k)" for k
    proof (cases k)
      case 0
      then show ?thesis by (simp add: c1)
    next
      case (Suc j)
      then have e: "i + int j = i - 1 + int k" by simp
      from Suc have "bit combined k \<longleftrightarrow> bit stars j \<and> bit hashes k"
        by (simp add: c1)
      also have "\<dots> \<longleftrightarrow> k < 16 \<and>
          star_at m s (i - 1 + int k) \<and> bytes m (s + (i + int k)) = hash"
        unfolding stars hashes e using Suc by auto
      also have "\<dots> \<longleftrightarrow> k < 16 \<and> star_hash_at m s (i - 1 + int k)"
        by (simp only: pair_in_block)
      finally show ?thesis using Suc by simp
    qed
    have unfold: "twosse2_loop m s len prev i =
      (if star_hash_at m s (i - 1) then Some (Via_straddle (i - 1))
       else if combined \<noteq> 0 then
         (if i + builtin_ffs combined - 2 \<ge> len - 1 then Some (Via_other (- 127))
          else Some (Via_other (i + builtin_ffs combined - 2)))
       else twosse2_loop m s len stars (i + 16))"
      using \<open>i < len\<close> raw straddle
      by (simp add: twosse2_loop.simps [of m s len prev i] Let_def stars_def [symmetric]
          hashes_def [symmetric] combined_def [symmetric] del: One_nat_def)
    from less.prems(4) have inv: "\<forall>j\<in>{0..<i - 1}. \<not> star_hash_at m s j" .
    show ?thesis
    proof (cases "star_hash_at m s (i - 1)")
      case True
      with less.prems(1) \<open>i < len\<close> inv have "match_result (star_hash_at m s) (len - 1) (i - 1)"
        by (intro match_result_found) simp_all
      with True unfold show ?thesis by simp
    next
      case ns: False
      show ?thesis
      proof (cases "combined = 0")
        case True
        have "\<not> star_hash_at m s (i - 1 + int k)" if "k < 16" for k
        proof (cases "k = 0")
          case True
          with ns show ?thesis by simp
        next
          case False
          from \<open>combined = 0\<close> have "\<not> bit combined k" by simp
          with False that combined [of k] show ?thesis by simp
        qed
        then have "\<forall>k<16. 0 \<le> i - 1 + int k \<longrightarrow> \<not> star_hash_at m s (i - 1 + int k)"
          by blast
        with inv have "\<forall>j\<in>{0..<i - 1 + int 16}. \<not> star_hash_at m s j"
          by (rule block_none)
        then have inv': "\<forall>j\<in>{0..<i + 16 - 1}. \<not> star_hash_at m s j" by (simp add: algebra_simps)
        from \<open>i < len\<close> have "nat (len - (i + 16)) < nat (len - i)" by simp
        moreover from less.prems have "0 < i + 16" by simp
        moreover from less.prems have "(s + (i + 16)) mod 16 = 0" by presburger
        moreover have "bit stars 15 \<longleftrightarrow> star_at m s (i + 16 - 1)"
          using stars [of 15] by (simp add: algebra_simps)
        ultimately have "\<exists>x. twosse2_loop m s len stars (i + 16) = Some x \<and>
            match_result (star_hash_at m s) (len - 1) (returned_value x)"
          using inv' by (rule less.hyps)
        with True ns unfold show ?thesis by simp
      next
        case False
        then obtain k where "bit combined k" by (auto dest: int_nonzero_bit)
        then obtain k0 where k0: "bit combined k0" "\<forall>j<k0. \<not> bit combined j"
          by (rule lowest_bit_exists)
        from k0(1) combined have k16: "1 \<le> k0" "k0 < 16" by simp_all
        then have ffs: "builtin_ffs combined = int k0 + 1"
          using k0 by (simp add: builtin_ffs_def ffs_upto_lowest)
        have low: "\<forall>k<k0. 0 \<le> i - 1 + int k \<longrightarrow> \<not> star_hash_at m s (i - 1 + int k)"
        proof (intro allI impI)
          fix k assume k: "k < k0"
          show "\<not> star_hash_at m s (i - 1 + int k)"
          proof (cases "k = 0")
            case True with ns show ?thesis by simp
          next
            case False
            with k k0(2) k16 combined [of k] show ?thesis by auto
          qed
        qed
        from k0(1) combined less.prems(1)
        have "0 \<le> i - 1 + int k0" "star_hash_at m s (i - 1 + int k0)" by simp_all
        with inv have mr: "match_result (star_hash_at m s) (len - 1)
            (if i - 1 + int k0 \<ge> len - 1 then - 127 else i - 1 + int k0)"
          using low by (rule block_found)
        have res: "i + builtin_ffs combined - 2 = i - 1 + int k0" by (simp add: ffs)
        have "match_result (star_hash_at m s) (len - 1)
            (if i + builtin_ffs combined - 2 \<ge> len - 1 then - 127
             else i + builtin_ffs combined - 2)"
          unfolding res by (rule mr)
        then show ?thesis
          using False ns unfold by (simp split: if_splits)
      qed
    qed
  qed
qed

lemma bit_push_bit_1: "bit (push_bit 1 M :: int) k \<longleftrightarrow> 1 \<le> k \<and> bit M (k - 1)"
  by (simp only: bit_push_bit_iff) simp

lemma bit_carry_plus_shift:
  fixes M :: int
  shows "bit (of_bool b + push_bit 1 M) k \<longleftrightarrow> (k = 0 \<and> b) \<or> (1 \<le> k \<and> bit M (k - 1))"
proof -
  have "\<not> bit (of_bool b :: int) n \<or> \<not> bit (push_bit 1 M) n" for n
    by (cases "n = 0") (simp_all only: bit_push_bit_1 bit_of_bool_iff, simp_all)
  then have "of_bool b + push_bit 1 M = of_bool b OR push_bit 1 M"
    by (rule disjunctive_add)
  then show ?thesis
    by (simp only: bit_or_iff bit_push_bit_1 bit_of_bool_iff)
qed

lemma drop_carry:
  fixes M :: int
  assumes "\<And>k. bit M k \<Longrightarrow> k < 16"
  shows "drop_bit 16 (of_bool b + push_bit 1 M) = of_bool (bit M 15)"
proof (rule bit_eqI)
  fix n
  have "bit (drop_bit 16 (of_bool b + push_bit 1 M)) n \<longleftrightarrow>
      bit (of_bool b + push_bit 1 M) (16 + n)"
    by (simp only: bit_drop_bit_eq comp_def)
  also have "\<dots> \<longleftrightarrow> bit M (15 + n)"
    by (simp only: bit_carry_plus_shift) simp
  finally have "bit (drop_bit 16 (of_bool b + push_bit 1 M)) n \<longleftrightarrow> bit M (15 + n)" .
  also have "\<dots> \<longleftrightarrow> n = 0 \<and> bit M 15"
    using assms [of "15 + n"] by (cases "n = 0") auto
  finally show "bit (drop_bit 16 (of_bool b + push_bit 1 M)) n \<longleftrightarrow> bit (of_bool (bit M 15) :: int) n"
    by (simp only: bit_of_bool_iff)
qed

lemma twobsse2_loop_correct:
  assumes rd: "\<And>j. 0 < j \<Longrightarrow> j < len \<Longrightarrow> (s + j) mod 16 = 0 \<Longrightarrow> readable m (s + j) 16"
  shows "0 < i \<Longrightarrow> (s + i) mod 16 = 0 \<Longrightarrow> stars = of_bool (star_at m s (i - 1)) \<Longrightarrow>
     \<forall>j\<in>{0..<i - 1}. \<not> star_hash_at m s j \<Longrightarrow>
     \<exists>r. twobsse2_loop m s len stars i = Some r \<and>
        match_result (star_hash_at m s) (len - 1) r"
proof (induction "nat (len - i)" arbitrary: i stars rule: less_induct)
  case less
  show ?case
  proof (cases "i < len")
    case False
    with less.prems have "\<forall>j\<in>{0..<len - 1}. \<not> star_hash_at m s j" by auto
    with False show ?thesis
      by (simp add: twobsse2_loop.simps [of m s len stars i] match_result_none)
  next
    case True
    with less.prems obtain raw where raw: "load_uint128 m (s + i) = Some raw"
      using load_uint128_readable [OF rd [of i]] by auto
    define M where "M = mm_movemask_epi8 (mm_cmpeq_epi8 raw (mm_set1_epi8 star))"
    define hashes where "hashes = mm_movemask_epi8 (mm_cmpeq_epi8 raw (mm_set1_epi8 hash))"
    define stars' where "stars' = stars + push_bit 1 M"
    define combined where "combined = hashes AND stars'"
    have M: "bit M k \<longleftrightarrow> k < 16 \<and> star_at m s (i + int k)" for k
      by (simp add: M_def bit_star_mask [OF raw])
    have hashes: "bit hashes k \<longleftrightarrow> k < 16 \<and> bytes m (s + (i + int k)) = hash" for k
      by (simp add: hashes_def bit_hash_mask [OF raw])
    have stars': "bit stars' k \<longleftrightarrow> k \<le> 16 \<and> star_at m s (i - 1 + int k)" for k
    proof (cases k)
      case 0
      then show ?thesis
        unfolding stars'_def less.prems(3) bit_carry_plus_shift by simp
    next
      case (Suc j)
      then have e: "i + int j = i - 1 + int k" by simp
      from Suc have "bit stars' k \<longleftrightarrow> bit M j"
        unfolding stars'_def less.prems(3) bit_carry_plus_shift by simp
      also have "\<dots> \<longleftrightarrow> k \<le> 16 \<and> star_at m s (i - 1 + int k)"
        unfolding M e using Suc by auto
      finally show ?thesis .
    qed
    have combined: "bit combined k \<longleftrightarrow> k < 16 \<and> star_hash_at m s (i - 1 + int k)" for k
      unfolding combined_def bit_and_iff hashes stars' pair_in_block by auto
    have next_stars: "drop_bit 16 stars' = of_bool (star_at m s (i + 16 - 1))"
    proof -
      have "drop_bit 16 stars' = of_bool (bit M 15)"
        unfolding stars'_def less.prems(3) by (rule drop_carry) (simp add: M)
      also have "bit M 15 \<longleftrightarrow> star_at m s (i + 16 - 1)"
        using M [of 15] by (simp add: algebra_simps)
      finally show ?thesis .
    qed
    have unfold: "twobsse2_loop m s len stars i =
      (if combined \<noteq> 0 then
         (if i + builtin_ffs combined - 2 \<ge> len - 1 then Some (- 127)
          else Some (i + builtin_ffs combined - 2))
       else twobsse2_loop m s len (drop_bit 16 stars') (i + 16))"
      using \<open>i < len\<close> raw
      by (simp add: twobsse2_loop.simps [of m s len stars i] Let_def M_def [symmetric]
          hashes_def [symmetric] stars'_def [symmetric] combined_def [symmetric]
          del: One_nat_def)
    from less.prems(4) have inv: "\<forall>j\<in>{0..<i - 1}. \<not> star_hash_at m s j" .
    show ?thesis
    proof (cases "combined = 0")
      case True
      then have "\<not> bit combined k" for k by simp
      then have "\<forall>k<16. 0 \<le> i - 1 + int k \<longrightarrow> \<not> star_hash_at m s (i - 1 + int k)"
        using combined by blast
      with inv have "\<forall>j\<in>{0..<i - 1 + int 16}. \<not> star_hash_at m s j"
        by (rule block_none)
      then have inv': "\<forall>j\<in>{0..<i + 16 - 1}. \<not> star_hash_at m s j" by (simp add: algebra_simps)
      from \<open>i < len\<close> have "nat (len - (i + 16)) < nat (len - i)" by simp
      moreover from less.prems have "0 < i + 16" by simp
      moreover from less.prems have "(s + (i + 16)) mod 16 = 0" by presburger
      ultimately have "\<exists>r. twobsse2_loop m s len (drop_bit 16 stars') (i + 16) = Some r \<and>
          match_result (star_hash_at m s) (len - 1) r"
        using next_stars inv' by (rule less.hyps)
      with True unfold show ?thesis by simp
    next
      case False
      then obtain k where "bit combined k" by (auto dest: int_nonzero_bit)
      then obtain k0 where k0: "bit combined k0" "\<forall>j<k0. \<not> bit combined j"
        by (rule lowest_bit_exists)
      from k0(1) combined have k16: "k0 < 16" by simp
      then have ffs: "builtin_ffs combined = int k0 + 1"
        using k0 by (simp add: builtin_ffs_def ffs_upto_lowest)
      from k0 combined k16 less.prems(1)
      have "0 \<le> i - 1 + int k0" "star_hash_at m s (i - 1 + int k0)"
        "\<forall>k<k0. 0 \<le> i - 1 + int k \<longrightarrow> \<not> star_hash_at m s (i - 1 + int k)"
        by auto
      with inv have mr: "match_result (star_hash_at m s) (len - 1)
          (if i - 1 + int k0 \<ge> len - 1 then - 127 else i - 1 + int k0)"
        by (rule block_found)
      have res: "i + builtin_ffs combined - 2 = i - 1 + int k0" by (simp add: ffs)
      have "match_result (star_hash_at m s) (len - 1)
          (if i + builtin_ffs combined - 2 \<ge> len - 1 then - 127
           else i + builtin_ffs combined - 2)"
        unfolding res by (rule mr)
      then show ?thesis
        using False unfold by (simp split: if_splits)
    qed
  qed
qed

lemma pure_twobsse2_loop_correct:
  assumes rd: "\<And>j. - 16 < j \<Longrightarrow> j < len \<Longrightarrow> (s + j) mod 16 = 0 \<Longrightarrow> readable m (s + j) 16"
  shows "- 16 < i \<Longrightarrow> (s + i) mod 16 = 0 \<Longrightarrow> \<forall>k<16. bit am k \<longleftrightarrow> 0 \<le> i + int k \<Longrightarrow>
     stars = of_bool (0 < i \<and> star_at m s (i - 1)) \<Longrightarrow>
     \<forall>j\<in>{0..<i - 1}. \<not> star_hash_at m s j \<Longrightarrow>
     \<exists>r. pure_twobsse2_loop m s len am stars i = Some r \<and>
        match_result (star_hash_at m s) (len - 1) r"
proof (induction "nat (len - i)" arbitrary: i am stars rule: less_induct)
  case less
  show ?case
  proof (cases "i < len")
    case False
    with less.prems have "\<forall>j\<in>{0..<len - 1}. \<not> star_hash_at m s j" by auto
    with False show ?thesis
      by (simp add: pure_twobsse2_loop.simps [of m s len am stars i] match_result_none)
  next
    case True
    with less.prems obtain raw where raw: "load_uint128 m (s + i) = Some raw"
      using load_uint128_readable [OF rd [of i]] by auto
    define M where "M = mm_movemask_epi8 (mm_cmpeq_epi8 raw (mm_set1_epi8 star)) AND am"
    define hashes where "hashes = mm_movemask_epi8 (mm_cmpeq_epi8 raw (mm_set1_epi8 hash))"
    define stars' where "stars' = stars + push_bit 1 M"
    define combined where "combined = hashes AND stars'"
    have M: "bit M k \<longleftrightarrow> k < 16 \<and> star_at m s (i + int k) \<and> 0 \<le> i + int k" for k
      using less.prems(3) by (auto simp: M_def bit_and_iff bit_star_mask [OF raw])
    have hashes: "bit hashes k \<longleftrightarrow> k < 16 \<and> bytes m (s + (i + int k)) = hash" for k
      by (simp add: hashes_def bit_hash_mask [OF raw])
    have stars': "bit stars' k \<longleftrightarrow>
        k \<le> 16 \<and> star_at m s (i - 1 + int k) \<and> 0 \<le> i - 1 + int k" for k
    proof (cases k)
      case 0
      then show ?thesis
        unfolding stars'_def less.prems(4) bit_carry_plus_shift by auto
    next
      case (Suc j)
      then have e: "i + int j = i - 1 + int k" by simp
      from Suc have "bit stars' k \<longleftrightarrow> bit M j"
        unfolding stars'_def less.prems(4) bit_carry_plus_shift by simp
      also have "\<dots> \<longleftrightarrow> k \<le> 16 \<and> star_at m s (i - 1 + int k) \<and> 0 \<le> i - 1 + int k"
        unfolding M e using Suc by auto
      finally show ?thesis .
    qed
    have combined: "bit combined k \<longleftrightarrow>
        k < 16 \<and> star_hash_at m s (i - 1 + int k) \<and> 0 \<le> i - 1 + int k" for k
      unfolding combined_def bit_and_iff hashes stars' pair_in_block by auto
    have next_stars: "drop_bit 16 stars' = of_bool (0 < i + 16 \<and> star_at m s (i + 16 - 1))"
    proof -
      have "drop_bit 16 stars' = of_bool (bit M 15)"
        unfolding stars'_def less.prems(4) by (rule drop_carry) (simp add: M)
      also have "bit M 15 \<longleftrightarrow> 0 < i + 16 \<and> star_at m s (i + 16 - 1)"
        using M [of 15] less.prems(1) by (auto simp: algebra_simps)
      finally show ?thesis .
    qed
    have unfold: "pure_twobsse2_loop m s len am stars i =
      (if combined \<noteq> 0 then
         (if i + builtin_ffs combined - 2 \<ge> len - 1 then Some (- 127)
          else Some (i + builtin_ffs combined - 2))
       else pure_twobsse2_loop m s len 0xffff (drop_bit 16 stars') (i + 16))"
      using \<open>i < len\<close> raw
      by (simp add: pure_twobsse2_loop.simps [of m s len am stars i] Let_def M_def [symmetric]
          hashes_def [symmetric] stars'_def [symmetric] combined_def [symmetric]
          del: One_nat_def)
    from less.prems(5) have inv: "\<forall>j\<in>{0..<i - 1}. \<not> star_hash_at m s j" .
    show ?thesis
    proof (cases "combined = 0")
      case True
      then have "\<not> bit combined k" for k by simp
      then have "\<forall>k<16. 0 \<le> i - 1 + int k \<longrightarrow> \<not> star_hash_at m s (i - 1 + int k)"
        using combined by blast
      with inv have "\<forall>j\<in>{0..<i - 1 + int 16}. \<not> star_hash_at m s j"
        by (rule block_none)
      then have inv': "\<forall>j\<in>{0..<i + 16 - 1}. \<not> star_hash_at m s j" by (simp add: algebra_simps)
      from \<open>i < len\<close> have "nat (len - (i + 16)) < nat (len - i)" by simp
      moreover from less.prems have "- 16 < i + 16" by simp
      moreover from less.prems have "(s + (i + 16)) mod 16 = 0" by presburger
      moreover from less.prems have "\<forall>k<16. bit (0xffff::int) k \<longleftrightarrow> 0 \<le> i + 16 + int k"
        by (simp add: bit_0xffff)
      ultimately have "\<exists>r. pure_twobsse2_loop m s len 0xffff (drop_bit 16 stars') (i + 16) = Some r
          \<and> match_result (star_hash_at m s) (len - 1) r"
        using next_stars inv' by (rule less.hyps)
      with True unfold show ?thesis by simp
    next
      case False
      then obtain k where "bit combined k" by (auto dest: int_nonzero_bit)
      then obtain k0 where k0: "bit combined k0" "\<forall>j<k0. \<not> bit combined j"
        by (rule lowest_bit_exists)
      from k0(1) combined have k16: "k0 < 16" by simp
      then have ffs: "builtin_ffs combined = int k0 + 1"
        using k0 by (simp add: builtin_ffs_def ffs_upto_lowest)
      from k0 combined k16
      have "0 \<le> i - 1 + int k0" "star_hash_at m s (i - 1 + int k0)"
        "\<forall>k<k0. 0 \<le> i - 1 + int k \<longrightarrow> \<not> star_hash_at m s (i - 1 + int k)"
        by auto
      with inv have mr: "match_result (star_hash_at m s) (len - 1)
          (if i - 1 + int k0 \<ge> len - 1 then - 127 else i - 1 + int k0)"
        by (rule block_found)
      have res: "i + builtin_ffs combined - 2 = i - 1 + int k0" by (simp add: ffs)
      have "match_result (star_hash_at m s) (len - 1)
          (if i + builtin_ffs combined - 2 \<ge> len - 1 then - 127
           else i + builtin_ffs combined - 2)"
        unfolding res by (rule mr)
      then show ?thesis
        using False unfold by (simp split: if_splits)
    qed
  qed
qed

lemma test_pure_twobsse2_correct:
  assumes rd: "\<And>j. - 16 < j \<Longrightarrow> j < len \<Longrightarrow> (s + j) mod 16 = 0 \<Longrightarrow> readable m (s + j) 16"
  shows "\<exists>r. test_pure_twobsse2 m s len = Some r \<and> match_result (star_hash_at m s) (len - 1) r"
proof -
  have "\<forall>k<16. bit (push_bit (nat (s mod 16)) (0xffff::int)) k \<longleftrightarrow> 0 \<le> - (s mod 16) + int k"
    by (auto simp: bit_push_bit_iff bit_0xffff)
  moreover have "\<forall>j\<in>{0..<- (s mod 16) - 1}. \<not> star_hash_at m s j" by simp
  moreover have nn: "\<not> s mod 16 < 0"
    by (simp add: not_less)
  moreover have "(0::int) = of_bool (0 < - (s mod 16) \<and> star_at m s (- (s mod 16) - 1))"
    by (simp add: nn)
  ultimately show ?thesis
    unfolding test_pure_twobsse2_def Let_def
    by (intro pure_twobsse2_loop_correct rd start_aligned start_bound) (simp_all add: nn)
qed

lemma after_pair_prologue:
  assumes rd1: "\<And>j. 0 \<le> j \<Longrightarrow> j < len \<Longrightarrow> readable m (s + j) 1"
    and rest: "\<And>i. 0 < i \<Longrightarrow> i < len - 1 \<Longrightarrow> (s + i) mod B = 0 \<Longrightarrow>
       \<forall>j\<in>{0..<i}. \<not> star_hash_at m s j \<Longrightarrow>
       \<exists>r. loop i = Some r \<and> match_result (star_hash_at m s) (len - 1) r"
  shows "\<exists>r. (case pair_prologue B m s len 0 of
                None \<Rightarrow> None
              | Some (Done r) \<Rightarrow> Some r
              | Some (Aligned i) \<Rightarrow> if i \<ge> len - 1 then Some (- 127) else loop i) = Some r \<and>
             match_result (star_hash_at m s) (len - 1) r"
proof -
  have "\<exists>p. pair_prologue B m s len 0 = Some p \<and>
      prologue_ok (star_hash_at m s) (len - 1) s B 0 p"
    by (rule pair_prologue_correct [OF rd1]) simp_all
  then obtain p where p: "pair_prologue B m s len 0 = Some p"
    "prologue_ok (star_hash_at m s) (len - 1) s B 0 p" by blast
  show ?thesis
  proof (cases p)
    case (Done r)
    with p show ?thesis by (simp add: prologue_ok_def)
  next
    case (Aligned i)
    with p(2) have i: "\<forall>j\<in>{0..<i}. \<not> star_hash_at m s j"
      "i < len - 1 \<longrightarrow> 0 < i \<and> (s + i) mod B = 0"
      by (simp_all add: prologue_ok_def)
    show ?thesis
    proof (cases "i < len - 1")
      case True
      with i have "\<exists>r. loop i = Some r \<and> match_result (star_hash_at m s) (len - 1) r"
        by (intro rest) simp_all
      with True p(1) Aligned show ?thesis by simp
    next
      case False
      with i(1) have "\<forall>j\<in>{0..<len - 1}. \<not> star_hash_at m s j" by auto
      then have "match_result (star_hash_at m s) (len - 1) (- 127)" by (rule match_result_none)
      with False p(1) Aligned show ?thesis by simp
    qed
  qed
qed

lemma test_twobsse2_correct:
  assumes rd1: "\<And>j. 0 \<le> j \<Longrightarrow> j < len \<Longrightarrow> readable m (s + j) 1"
    and rd: "\<And>j. 0 < j \<Longrightarrow> j < len \<Longrightarrow> (s + j) mod 16 = 0 \<Longrightarrow> readable m (s + j) 16"
  shows "\<exists>r. test_twobsse2 m s len = Some r \<and> match_result (star_hash_at m s) (len - 1) r"
  unfolding test_twobsse2_def
proof (rule after_pair_prologue [OF rd1])
  fix i assume i: "0 < i" "i < len - 1" "(s + i) mod 16 = 0"
    "\<forall>j\<in>{0..<i}. \<not> star_hash_at m s j"
  then have "readable m (s + (i - 1)) 1" by (intro rd1) simp_all
  then have ld: "load_byte m (s + (i - 1)) = Some (bytes m (s + (i - 1)))"
    by (rule load_byte_readable)
  from i have "\<exists>r. twobsse2_loop m s len (of_bool (bytes m (s + (i - 1)) = star)) i = Some r \<and>
      match_result (star_hash_at m s) (len - 1) r"
    by (intro twobsse2_loop_correct rd) (simp_all add: star_at_def)
  with ld show "\<exists>r. (case load_byte m (s + (i - 1)) of
             None \<Rightarrow> None
           | Some c \<Rightarrow> twobsse2_loop m s len (of_bool (c = star)) i) = Some r \<and>
          match_result (star_hash_at m s) (len - 1) r"
    by simp
qed

lemma test_twosse2_correct:
  assumes rd1: "\<And>j. 0 \<le> j \<Longrightarrow> j < len \<Longrightarrow> readable m (s + j) 1"
    and rd: "\<And>j. 0 < j \<Longrightarrow> j < len \<Longrightarrow> (s + j) mod 16 = 0 \<Longrightarrow> readable m (s + j) 16"
  shows "\<exists>r. test_twosse2 m s len = Some r \<and> match_result (star_hash_at m s) (len - 1) r"
proof -
  have "\<exists>r. (case pair_prologue 16 m s len 0 of
                None \<Rightarrow> None
              | Some (Done r) \<Rightarrow> Some r
              | Some (Aligned i) \<Rightarrow> if i \<ge> len - 1 then Some (- 127)
                  else map_option returned_value
                    (case load_byte m (s + (i - 1)) of
                       None \<Rightarrow> None
                     | Some c \<Rightarrow> twosse2_loop m s len (push_bit 15 (of_bool (c = star))) i))
             = Some r \<and>
             match_result (star_hash_at m s) (len - 1) r"
  proof (rule after_pair_prologue [OF rd1])
    fix i assume i: "0 < i" "i < len - 1" "(s + i) mod 16 = 0"
      "\<forall>j\<in>{0..<i}. \<not> star_hash_at m s j"
    then have "readable m (s + (i - 1)) 1" by (intro rd1) simp_all
    then have ld: "load_byte m (s + (i - 1)) = Some (bytes m (s + (i - 1)))"
      by (rule load_byte_readable)
    have "bit (push_bit 15 (of_bool (bytes m (s + (i - 1)) = star)) :: int) 15 \<longleftrightarrow>
        star_at m s (i - 1)"
      by (simp add: bit_push_bit_iff star_at_def)
    with i have "\<exists>x. twosse2_loop m s len
        (push_bit 15 (of_bool (bytes m (s + (i - 1)) = star))) i = Some x \<and>
        match_result (star_hash_at m s) (len - 1) (returned_value x)"
      by (intro twosse2_loop_correct rd) simp_all
    with ld show "\<exists>r. map_option returned_value
          (case load_byte m (s + (i - 1)) of
             None \<Rightarrow> None
           | Some c \<Rightarrow> twosse2_loop m s len (push_bit 15 (of_bool (c = star))) i) = Some r \<and>
          match_result (star_hash_at m s) (len - 1) r"
      by auto
  qed
  moreover have "test_twosse2 m s len =
      (case pair_prologue 16 m s len 0 of
                None \<Rightarrow> None
              | Some (Done r) \<Rightarrow> Some r
              | Some (Aligned i) \<Rightarrow> if i \<ge> len - 1 then Some (- 127)
                  else map_option returned_value
                    (case load_byte m (s + (i - 1)) of
                       None \<Rightarrow> None
                     | Some c \<Rightarrow> twosse2_loop m s len (push_bit 15 (of_bool (c = star))) i))"
    by (simp add: test_twosse2_def twosse2_returned_def split: option.splits prologue.splits)
  ultimately show ?thesis by simp
qed

subsection \<open>The other word-trick scanners return the sentinel or an index of the buffer\<close>

lemma lanes_from_and: "lanes_from h n i \<Longrightarrow> lanes_from (x AND h) n i"
  by (simp add: lanes_from_def bit_and_iff)

lemma lanes_from_highs32: "0 \<le> i \<Longrightarrow> lanes_from highs32 4 i"
  unfolding lanes_from_def using bit_highs32_only by fastforce

lemma lanes_from_highs64: "0 \<le> i \<Longrightarrow> lanes_from highs64 8 i"
  unfolding lanes_from_def using bit_highs64_only by fastforce

lemma lanes_from_ffs:
  fixes x :: "'a::len word"
  assumes "lanes_from x n i" "x \<noteq> 0" "8 * n \<le> N"
  shows "\<exists>k0<n. 0 \<le> i + int k0 \<and> lowest_flagged x k0 \<and> drop_bit 3 (ffs_upto N x) = int k0 + 1"
proof -
  from assms(1) have "\<And>p. bit x p \<Longrightarrow> \<exists>k<n. p = 8 * k + 7"
    unfolding lanes_from_def by blast
  then have "\<exists>k0<n. lowest_flagged x k0 \<and> drop_bit 3 (ffs_upto N x) = int k0 + 1"
    using assms(2,3) by (rule ffs_of_lane_mask)
  then obtain k0 where k0: "k0 < n" "lowest_flagged x k0"
    "drop_bit 3 (ffs_upto N x) = int k0 + 1" by blast
  from k0(2) have "bit x (8 * k0 + 7)" by (simp add: lowest_flagged_def flagged_def)
  with assms(1) have "0 \<le> i + int k0" unfolding lanes_from_def by fastforce
  with k0 show ?thesis by blast
qed

lemma lanes_from_start32:
  assumes "0 \<le> lb"
  shows "lanes_from (push_bit (nat (push_bit 3 lb)) highs32) 4 (- lb)"
  unfolding lanes_from_def
proof (intro allI impI)
  fix p assume p: "bit (push_bit (nat (push_bit 3 lb)) highs32) p"
  from assms have n: "nat (push_bit 3 lb) = 8 * nat lb"
    by (simp add: push_bit_eq_mult nat_mult_distrib)
  from p have p32: "p < 32" by (auto dest: bit_imp_le_length)
  from p n have "8 * nat lb \<le> p" "bit highs32 (p - 8 * nat lb)"
    by (simp_all add: bit_push_bit_iff)
  then obtain k' where k': "k' < 4" "p - 8 * nat lb = 8 * k' + 7" and le: "8 * nat lb \<le> p"
    using bit_highs32_only by blast
  then have "p = 8 * (k' + nat lb) + 7" by simp
  moreover with p32 have "k' + nat lb < 4" by simp
  moreover from assms have "0 \<le> - lb + int (k' + nat lb)" by simp
  ultimately show "\<exists>k<4. p = 8 * k + 7 \<and> 0 \<le> - lb + int k" by blast
qed

lemma lanes_from_start64:
  assumes "0 \<le> lb"
  shows "lanes_from (push_bit (nat (push_bit 3 lb)) highs64) 8 (- lb)"
  unfolding lanes_from_def
proof (intro allI impI)
  fix p assume p: "bit (push_bit (nat (push_bit 3 lb)) highs64) p"
  from assms have n: "nat (push_bit 3 lb) = 8 * nat lb"
    by (simp add: push_bit_eq_mult nat_mult_distrib)
  from p have p64: "p < 64" by (auto dest: bit_imp_le_length)
  from p n have "8 * nat lb \<le> p" "bit highs64 (p - 8 * nat lb)"
    by (simp_all add: bit_push_bit_iff)
  then obtain k' where k': "k' < 8" "p - 8 * nat lb = 8 * k' + 7" and le: "8 * nat lb \<le> p"
    using bit_highs64_only by blast
  then have "p = 8 * (k' + nat lb) + 7" by simp
  moreover with p64 have "k' + nat lb < 8" by simp
  moreover from assms have "0 \<le> - lb + int (k' + nat lb)" by simp
  ultimately show "\<exists>k<8. p = 8 * k + 7 \<and> 0 \<le> - lb + int k" by blast
qed

lemma pure_mycroft4_loop_nonneg:
  "pure_mycroft4_loop m s len highs i = Some r \<Longrightarrow> - 4 < i \<Longrightarrow> lanes_from highs 4 i \<Longrightarrow>
     r = - 127 \<or> 0 \<le> r"
proof (induction "nat (len - i)" arbitrary: i highs rule: less_induct)
  case less
  show ?case
  proof (cases "i < len")
    case False
    with less.prems(1) show ?thesis
      by (simp add: pure_mycroft4_loop.simps [of m s len highs i])
  next
    case True
    with less.prems(1) obtain w where w: "load_uint32 m (s + i) = Some w"
      by (cases "load_uint32 m (s + i)")
        (simp_all add: pure_mycroft4_loop.simps [of m s len highs i])
    define x where "x = (w XOR mask32) - ones32 AND NOT (w XOR mask32) AND highs"
    from less.prems(3) have lf: "lanes_from x 4 i"
      unfolding x_def by (intro lanes_from_and)
    have unfold: "pure_mycroft4_loop m s len highs i =
      (if x \<noteq> 0 then
         (if i + drop_bit 3 (builtin_ffs x) - 1 \<ge> len then Some (- 127)
          else Some (i + drop_bit 3 (builtin_ffs x) - 1))
       else pure_mycroft4_loop m s len highs32 (i + 4))"
      using True w by (simp add: pure_mycroft4_loop.simps [of m s len highs i] Let_def x_def)
    show ?thesis
    proof (cases "x = 0")
      case True
      from \<open>i < len\<close> have "nat (len - (i + 4)) < nat (len - i)" by simp
      moreover from True unfold less.prems(1)
      have "pure_mycroft4_loop m s len highs32 (i + 4) = Some r" by simp
      moreover from less.prems(2) have "- 4 < i + 4" by simp
      moreover from less.prems(2) have "lanes_from highs32 4 (i + 4)"
        by (intro lanes_from_highs32) simp
      ultimately show ?thesis by (rule less.hyps)
    next
      case False
      with lf have "\<exists>k0<4. 0 \<le> i + int k0 \<and> lowest_flagged x k0 \<and>
          drop_bit 3 (ffs_upto 32 x) = int k0 + 1"
        by (intro lanes_from_ffs) simp_all
      then obtain k0 where "0 \<le> i + int k0" "drop_bit 3 (builtin_ffs x) = int k0 + 1"
        by (auto simp: builtin_ffs_def)
      with False unfold less.prems(1) show ?thesis
        by (auto split: if_splits)
    qed
  qed
qed

lemma pure_mycroft_loop_nonneg:
  "pure_mycroft_loop m s len highs i = Some r \<Longrightarrow> - 8 < i \<Longrightarrow> lanes_from highs 8 i \<Longrightarrow>
     r = - 127 \<or> 0 \<le> r"
proof (induction "nat (len - i)" arbitrary: i highs rule: less_induct)
  case less
  show ?case
  proof (cases "i < len")
    case False
    with less.prems(1) show ?thesis
      by (simp add: pure_mycroft_loop.simps [of m s len highs i])
  next
    case True
    with less.prems(1) obtain w where w: "load_uint64 m (s + i) = Some w"
      by (cases "load_uint64 m (s + i)")
        (simp_all add: pure_mycroft_loop.simps [of m s len highs i])
    define x where "x = (w XOR mask_star) - ones64 AND NOT (w XOR mask_star) AND highs"
    from less.prems(3) have lf: "lanes_from x 8 i"
      unfolding x_def by (intro lanes_from_and)
    have unfold: "pure_mycroft_loop m s len highs i =
      (if x \<noteq> 0 then
         (if i + drop_bit 3 (builtin_ffsll x) - 1 \<ge> len then Some (- 127)
          else Some (i + drop_bit 3 (builtin_ffsll x) - 1))
       else pure_mycroft_loop m s len highs64 (i + 8))"
      using True w by (simp add: pure_mycroft_loop.simps [of m s len highs i] Let_def x_def)
    show ?thesis
    proof (cases "x = 0")
      case True
      from \<open>i < len\<close> have "nat (len - (i + 8)) < nat (len - i)" by simp
      moreover from True unfold less.prems(1)
      have "pure_mycroft_loop m s len highs64 (i + 8) = Some r" by simp
      moreover from less.prems(2) have "- 8 < i + 8" by simp
      moreover from less.prems(2) have "lanes_from highs64 8 (i + 8)"
        by (intro lanes_from_highs64) simp
      ultimately show ?thesis by (rule less.hyps)
    next
      case False
      with lf have "\<exists>k0<8. 0 \<le> i + int k0 \<and> lowest_flagged x k0 \<and>
          drop_bit 3 (ffs_upto 64 x) = int k0 + 1"
        by (intro lanes_from_ffs) simp_all
      then obtain k0 where "0 \<le> i + int k0" "drop_bit 3 (builtin_ffsll x) = int k0 + 1"
        by (auto simp: builtin_ffsll_def)
      with False unfold less.prems(1) show ?thesis
        by (auto split: if_splits)
    qed
  qed
qed

lemma mycroft2_loop_nonneg:
  "mycroft2_loop m s len i = Some r \<Longrightarrow> 0 < i \<Longrightarrow> r = - 127 \<or> 0 \<le> r"
proof (induction "nat (len - i)" arbitrary: i rule: less_induct)
  case less
  show ?case
  proof (cases "i < len")
    case False
    with less.prems(1) show ?thesis
      by (simp add: mycroft2_loop.simps [of m s len i])
  next
    case True
    with less.prems(1) obtain w where w: "load_uint64 m (s + i - 1) = Some w"
      by (cases "load_uint64 m (s + i - 1)") (simp_all add: mycroft2_loop.simps [of m s len i])
    with True less.prems(1) obtain w2 where w2: "load_uint64 m (s + i) = Some w2"
      by (cases "load_uint64 m (s + i)") (simp_all add: mycroft2_loop.simps [of m s len i])
    define x where "x = ((w XOR mask_star) - ones64 AND NOT (w XOR mask_star)) AND
      ((w2 XOR mask_hash) - ones64 AND NOT (w2 XOR mask_hash)) AND highs64"
    from less.prems(2) have "lanes_from highs64 8 (i - 1)"
      by (intro lanes_from_highs64) simp
    then have lf: "lanes_from x 8 (i - 1)"
      unfolding x_def by (intro lanes_from_and)
    have unfold: "mycroft2_loop m s len i =
      (if x \<noteq> 0 then
         (if i - 1 + drop_bit 3 (builtin_ffsll x) - 1 \<ge> len - 1 then Some (- 127)
          else Some (i - 1 + drop_bit 3 (builtin_ffsll x) - 1))
       else mycroft2_loop m s len (i + 8))"
      using True w w2 by (simp add: mycroft2_loop.simps [of m s len i] Let_def x_def)
    show ?thesis
    proof (cases "x = 0")
      case True
      from \<open>i < len\<close> have "nat (len - (i + 8)) < nat (len - i)" by simp
      moreover from True unfold less.prems(1)
      have "mycroft2_loop m s len (i + 8) = Some r" by simp
      moreover from less.prems(2) have "0 < i + 8" by simp
      ultimately show ?thesis by (rule less.hyps)
    next
      case False
      with lf have "\<exists>k0<8. 0 \<le> i - 1 + int k0 \<and> lowest_flagged x k0 \<and>
          drop_bit 3 (ffs_upto 64 x) = int k0 + 1"
        by (intro lanes_from_ffs) simp_all
      then obtain k0 where "0 \<le> i - 1 + int k0" "drop_bit 3 (builtin_ffsll x) = int k0 + 1"
        by (auto simp: builtin_ffsll_def)
      with False unfold less.prems(1) show ?thesis
        by (auto split: if_splits)
    qed
  qed
qed

lemma lanes_from_carry:
  fixes stars_low y :: "64 word"
  assumes carry: "\<And>p. bit stars_low p \<Longrightarrow> p = 7 \<and> 0 < i"
    and y: "lanes_from y 8 i"
  shows "lanes_from (stars_low + push_bit 8 y AND h) 8 (i - 1)"
proof -
  have "\<not> bit stars_low n \<or> \<not> bit (push_bit 8 y) n" for n
    using carry [of n] by (auto simp: bit_push_bit_iff)
  then have sum: "stars_low + push_bit 8 y = stars_low OR push_bit 8 y"
    by (rule disjunctive_add)
  show ?thesis
    unfolding lanes_from_def
  proof (intro allI impI)
    fix p assume "bit (stars_low + push_bit 8 y AND h) p"
    then have p: "bit stars_low p \<or> bit (push_bit 8 y) p"
      by (simp add: sum bit_and_iff bit_or_iff)
    show "\<exists>k<8. p = 8 * k + 7 \<and> 0 \<le> i - 1 + int k"
    proof (cases "bit stars_low p")
      case True
      with carry [of p] show ?thesis by (intro exI [of _ 0]) simp
    next
      case False
      with p have sh: "bit (push_bit 8 y) p" by simp
      then have p64: "p < 64" by (auto dest: bit_imp_le_length)
      from sh have "8 \<le> p" "bit y (p - 8)" by (simp_all add: bit_push_bit_iff)
      with y obtain k where k: "k < 8" "p - 8 = 8 * k + 7" "0 \<le> i + int k"
        unfolding lanes_from_def by blast
      with \<open>8 \<le> p\<close> have "p = 8 * (k + 1) + 7" by simp
      moreover with p64 have "k + 1 < 8" by simp
      moreover from k have "0 \<le> i - 1 + int (k + 1)" by simp
      ultimately show ?thesis by blast
    qed
  qed
qed

lemma next_carry:
  fixes y :: "64 word"
  assumes "lanes_from y 8 i" "bit (drop_bit 56 y) n"
  shows "n = 7"
proof -
  from assms(2) have "bit y (56 + n)" by (simp add: bit_drop_bit_eq)
  with assms(1) obtain k where "k < 8" "56 + n = 8 * k + 7"
    unfolding lanes_from_def by blast
  then show ?thesis by arith
qed

lemma pure_mycroft2_loop_nonneg:
  "pure_mycroft2_loop m s len highs stars_low i = Some r \<Longrightarrow> - 8 < i \<Longrightarrow>
     lanes_from highs 8 i \<Longrightarrow> (\<And>p. bit stars_low p \<Longrightarrow> p = 7 \<and> 0 < i) \<Longrightarrow>
     r = - 127 \<or> 0 \<le> r"
proof (induction "nat (len - i)" arbitrary: i highs stars_low rule: less_induct)
  case less
  show ?case
  proof (cases "i < len")
    case False
    with less.prems(1) show ?thesis
      by (simp add: pure_mycroft2_loop.simps [of m s len highs stars_low i])
  next
    case True
    with less.prems(1) obtain raw where raw: "load_uint64 m (s + i) = Some raw"
      by (cases "load_uint64 m (s + i)")
        (simp_all add: pure_mycroft2_loop.simps [of m s len highs stars_low i])
    define y where "y = ((raw XOR mask_star) - ones64 AND NOT (raw XOR mask_star)) AND highs"
    define h where "h = (raw XOR mask_hash) - ones64 AND NOT (raw XOR mask_hash)"
    define x where "x = stars_low + push_bit 8 y AND h"
    from less.prems(3) have y: "lanes_from y 8 i"
      unfolding y_def by (intro lanes_from_and)
    from less.prems(4) y have lf: "lanes_from x 8 (i - 1)"
      unfolding x_def by (rule lanes_from_carry)
    have unfold: "pure_mycroft2_loop m s len highs stars_low i =
      (if x \<noteq> 0 then
         (if i - 1 + drop_bit 3 (builtin_ffsll x) - 1 \<ge> len - 1 then Some (- 127)
          else Some (i - 1 + drop_bit 3 (builtin_ffsll x) - 1))
       else pure_mycroft2_loop m s len highs64 (drop_bit 56 y) (i + 8))"
      by (subst pure_mycroft2_loop.simps)
        (simp only: True raw if_True option.case Let_def x_def y_def h_def)
    show ?thesis
    proof (cases "x = 0")
      case True
      from \<open>i < len\<close> have "nat (len - (i + 8)) < nat (len - i)" by simp
      moreover from True unfold less.prems(1)
      have "pure_mycroft2_loop m s len highs64 (drop_bit 56 y) (i + 8) = Some r" by simp
      moreover from less.prems(2) have "- 8 < i + 8" by simp
      moreover from less.prems(2) have "lanes_from highs64 8 (i + 8)"
        by (intro lanes_from_highs64) simp
      moreover have "p = 7 \<and> 0 < i + 8" if "bit (drop_bit 56 y) p" for p
        using next_carry [OF y that] less.prems(2) by simp
      ultimately show ?thesis by (rule less.hyps)
    next
      case False
      with lf have "\<exists>k0<8. 0 \<le> i - 1 + int k0 \<and> lowest_flagged x k0 \<and>
          drop_bit 3 (ffs_upto 64 x) = int k0 + 1"
        by (intro lanes_from_ffs) simp_all
      then obtain k0 where "0 \<le> i - 1 + int k0" "drop_bit 3 (builtin_ffsll x) = int k0 + 1"
        by (auto simp: builtin_ffsll_def)
      with False unfold less.prems(1) show ?thesis
        by (auto split: if_splits)
    qed
  qed
qed

lemma test_pure_mycroft4_nonneg: "test_pure_mycroft4 m s len = Some r \<Longrightarrow> r = - 127 \<or> 0 \<le> r"
  unfolding test_pure_mycroft4_def Let_def
  by (erule pure_mycroft4_loop_nonneg) (simp_all add: lanes_from_start32)

lemma test_pure_mycroft_nonneg: "test_pure_mycroft m s len = Some r \<Longrightarrow> r = - 127 \<or> 0 \<le> r"
  unfolding test_pure_mycroft_def Let_def
  by (erule pure_mycroft_loop_nonneg) (simp_all add: lanes_from_start64)

lemma test_pure_mycroft2_nonneg: "test_pure_mycroft2 m s len = Some r \<Longrightarrow> r = - 127 \<or> 0 \<le> r"
  unfolding test_pure_mycroft2_def Let_def
  by (erule pure_mycroft2_loop_nonneg) (simp_all add: lanes_from_start64)

lemma pair_prologue_Done_nonneg:
  "pair_prologue B m s len i = Some (Done r) \<Longrightarrow> 0 \<le> i \<Longrightarrow> 0 \<le> r"
proof (induction "nat (len - i)" arbitrary: i rule: less_induct)
  case less
  from less.prems show ?case
    by (subst (asm) pair_prologue.simps)
      (auto split: if_splits option.splits dest: less.hyps [rotated])
qed

lemma test_mycroft2_nonneg: "test_mycroft2 m s len = Some r \<Longrightarrow> r = - 127 \<or> 0 \<le> r"
proof -
  assume a: "test_mycroft2 m s len = Some r"
  show ?thesis
  proof (cases "pair_prologue 8 m s len 0")
    case None
    with a show ?thesis by (simp add: test_mycroft2_def)
  next
    case (Some p)
    show ?thesis
    proof (cases p)
      case (Done q)
      with Some a pair_prologue_Done_nonneg [of 8 m s len 0 q] show ?thesis
        by (simp add: test_mycroft2_def)
    next
      case (Aligned i)
      show ?thesis
      proof (cases "i \<ge> len - 1")
        case True
        with Some Aligned a show ?thesis by (simp add: test_mycroft2_def)
      next
        case False
        with Some Aligned have "0 < i"
          using pair_prologue_Aligned [of 8 m s len 0 i] by simp
        moreover from False Some Aligned a have "mycroft2_loop m s len i = Some r"
          by (simp add: test_mycroft2_def)
        ultimately show ?thesis by (intro mycroft2_loop_nonneg)
      qed
    qed
  qed
qed

subsection \<open>Agreement with the bytewise scanners\<close>

lemma match_result_functional:
  assumes "match_result P n r" "match_result P n r'"
  shows "r = r'"
proof (cases "\<exists>i\<in>{0..<n}. P i")
  case True
  with assms(2) have "0 \<le> r'" "r' < n" "P r'" "\<forall>j\<in>{0..<r'}. \<not> P j"
    by (simp_all add: match_result_def smallest_index_def)
  with assms(1) show ?thesis by (intro match_result_unique)
next
  case False
  with assms show ?thesis by (simp add: match_result_def)
qed

lemma test_naive_correct:
  assumes "\<And>j. 0 \<le> j \<Longrightarrow> j < len \<Longrightarrow> readable m (s + j) 1"
  shows "\<exists>r. test_naive m s len = Some r \<and> match_result (star_at m s) len r"
  unfolding test_naive_def using assms by (intro naive_loop_correct) simp_all

lemma test_twobyte_correct:
  assumes "\<And>j. 0 \<le> j \<Longrightarrow> j < len \<Longrightarrow> readable m (s + j) 1"
  shows "\<exists>r. test_twobyte m s len = Some r \<and> match_result (star_hash_at m s) (len - 1) r"
  unfolding test_twobyte_def using assms by (intro twobyte_loop_correct) simp_all

lemma agree_with:
  assumes "\<exists>r. f = Some r \<and> match_result P n r" "\<exists>r. g = Some r \<and> match_result P n r"
  shows "f = g"
  using assms by (auto dest: match_result_functional)

lemma byte_scanners_agree_flat:
  assumes "0 \<le> len" "len \<le> 2 ^ 31 - 17"
  shows "test_pure_sse2 (flat f) s len = test_naive (flat f) s len"
    and "test_sse2 (flat f) s len = test_naive (flat f) s len"
    and "test_sse2_and_mycroft4 (flat f) s len = test_naive (flat f) s len"
    and "test_mycroft4 (flat f) s len = test_naive (flat f) s len"
    and "test_mycroft (flat f) s len = test_naive (flat f) s len"
proof -
  have n: "\<exists>r. test_naive (flat f) s len = Some r \<and> match_result (star_at (flat f) s) len r"
    by (rule test_naive_correct) (simp add: flat_def)
  show "test_pure_sse2 (flat f) s len = test_naive (flat f) s len"
    by (rule agree_with [OF _ n], rule test_pure_sse2_correct) (simp add: flat_def)
  show "test_sse2 (flat f) s len = test_naive (flat f) s len"
    by (rule agree_with [OF _ n], rule test_sse2_correct) (simp_all add: flat_def)
  show "test_sse2_and_mycroft4 (flat f) s len = test_naive (flat f) s len"
    by (rule agree_with [OF _ n], rule test_sse2_and_mycroft4_correct) (simp_all add: flat_def)
  show "test_mycroft4 (flat f) s len = test_naive (flat f) s len"
    by (rule agree_with [OF _ n], rule test_mycroft4_correct) (simp_all add: flat_def)
  show "test_mycroft (flat f) s len = test_naive (flat f) s len"
    by (rule agree_with [OF _ n], rule test_mycroft_correct) (simp_all add: flat_def)
qed

lemma pair_scanners_agree_flat:
  assumes "0 \<le> len" "len \<le> 2 ^ 31 - 17"
  shows "test_twosse2 (flat f) s len = test_twobyte (flat f) s len"
    and "test_twobsse2 (flat f) s len = test_twobyte (flat f) s len"
    and "test_pure_twobsse2 (flat f) s len = test_twobyte (flat f) s len"
proof -
  have n: "\<exists>r. test_twobyte (flat f) s len = Some r \<and>
      match_result (star_hash_at (flat f) s) (len - 1) r"
    by (rule test_twobyte_correct) (simp add: flat_def)
  show "test_twosse2 (flat f) s len = test_twobyte (flat f) s len"
    by (rule agree_with [OF _ n], rule test_twosse2_correct) (simp_all add: flat_def)
  show "test_twobsse2 (flat f) s len = test_twobyte (flat f) s len"
    by (rule agree_with [OF _ n], rule test_twobsse2_correct) (simp_all add: flat_def)
  show "test_pure_twobsse2 (flat f) s len = test_twobyte (flat f) s len"
    by (rule agree_with [OF _ n], rule test_pure_twobsse2_correct) (simp add: flat_def)
qed

lemma word_trick_scanners_range:
  assumes "0 \<le> len" "len \<le> 2 ^ 31 - 17"
  shows "test_pure_mycroft4 m s len = Some r \<Longrightarrow> r = - 127 \<or> 0 \<le> r \<and> r < len"
    and "test_pure_mycroft m s len = Some r \<Longrightarrow> r = - 127 \<or> 0 \<le> r \<and> r < len"
    and "test_mycroft2 m s len = Some r \<Longrightarrow> r = - 127 \<or> 0 \<le> r \<and> r + 1 < len"
    and "test_pure_mycroft2 m s len = Some r \<Longrightarrow> r = - 127 \<or> 0 \<le> r \<and> r + 1 < len"
  using test_pure_mycroft4_nonneg [of m s len r] test_pure_mycroft4_clamped [of m s len r]
    test_pure_mycroft_nonneg [of m s len r] test_pure_mycroft_clamped [of m s len r]
    test_mycroft2_nonneg [of m s len r] test_mycroft2_clamped [of m s len r]
    test_pure_mycroft2_nonneg [of m s len r] test_pure_mycroft2_clamped [of m s len r]
  by blast+

text \<open>
  Summary. \<^verbatim>\<open>test_naive\<close>, \<^verbatim>\<open>test_twobyte\<close> and the eight scanners \<^verbatim>\<open>test_pure_sse2\<close>,
  \<^verbatim>\<open>test_sse2\<close>, \<^verbatim>\<open>test_sse2_and_mycroft4\<close>, \<^verbatim>\<open>test_mycroft4\<close>, \<^verbatim>\<open>test_mycroft\<close>,
  \<^verbatim>\<open>test_twosse2\<close>, \<^verbatim>\<open>test_twobsse2\<close> and \<^verbatim>\<open>test_pure_twobsse2\<close> return the match result
  whenever the loads they make are permitted and \<open>0 \<le> len \<le> 2^31 - 17\<close>. The word-trick scanners among them start
  at an aligned index inside the buffer and use the lowest flagged lane of the whole
  mask, which always holds the target. The scanners
  \<^verbatim>\<open>test_pure_mycroft4\<close>, \<^verbatim>\<open>test_pure_mycroft\<close>, \<^verbatim>\<open>test_mycroft2\<close> and \<^verbatim>\<open>test_pure_mycroft2\<close>
  return the sentinel or an index of the buffer, but mask lanes or combine two masks
  after the subtraction, so that a borrowed flag can be the lowest one that is left.
\<close>

section \<open>The claims\<close>

subsection \<open>C6: the bytewise scanners\<close>

text \<open>
  C6. In a memory whose bytes at the indices \<open>0 \<le> j < len\<close> may be read, \<^verbatim>\<open>test_naive\<close>
  returns the smallest index in \<open>[0, len)\<close> whose byte is the asterisk when there is one
  and \<open>-127\<close> otherwise, and \<^verbatim>\<open>test_twobyte\<close> returns the smallest index \<open>i\<close> with byte \<open>i\<close>
  the asterisk, byte \<open>i + 1\<close> the hash and \<open>i + 1 < len\<close> when there is one and \<open>-127\<close>
  otherwise. Both return; neither faults.
\<close>

theorem bytewise_scanners_first_match:
  assumes "\<forall>j\<in>{0..<len}. readable m (s + j) 1"
  shows "(\<exists>r. test_naive m s len = Some r \<and> match_result (star_at m s) len r) \<and>
         (\<exists>r. test_twobyte m s len = Some r \<and> match_result (star_hash_at m s) (len - 1) r)"
proof
  show "\<exists>r. test_naive m s len = Some r \<and> match_result (star_at m s) len r"
    unfolding test_naive_def using assms by (intro naive_loop_correct) simp_all
  from assms have "\<forall>j\<in>{0..<len - 1 + 1}. readable m (s + j) 1" by simp
  then show "\<exists>r. test_twobyte m s len = Some r \<and> match_result (star_hash_at m s) (len - 1) r"
    unfolding test_twobyte_def by (intro twobyte_loop_correct) simp_all
qed

theorem bytewise_scanners_first_match_witness:
  "test_naive (flat (place 0 (text_bytes ''a*#a''))) 0 4 = Some 1 \<and>
   match_result (star_at (flat (place 0 (text_bytes ''a*#a''))) 0) 4 1 \<and>
   test_twobyte (flat (place 0 (text_bytes ''a*#a''))) 0 4 = Some 1 \<and>
   match_result (star_hash_at (flat (place 0 (text_bytes ''a*#a''))) 0) (4 - 1) 1"
proof -
  let ?m = "flat (place 0 (text_bytes ''a*#a''))"
  have h: "\<forall>j\<in>{0..<4}. readable ?m (0 + j) 1"
    by (simp add: flat_def)
  have n: "test_naive ?m 0 4 = Some 1" and t: "test_twobyte ?m 0 4 = Some 1"
    by code_simp+
  from bytewise_scanners_first_match [OF h] n t show ?thesis
    by simp
qed

subsection \<open>C7: the length clamp\<close>

text \<open>
  C7. For every length \<open>0 \<le> len \<le> 2^31 - 17\<close> and whatever the memory holds, a block-based
  scanner reports a candidate only when it is below the length: every value a single-byte
  scanner returns is the sentinel \<open>-127\<close> or an index \<open>r < len\<close>, and every value a pair
  scanner returns is the sentinel or an index with \<open>r + 1 < len\<close>. A candidate that fails
  the check is turned into the sentinel on every return path of the block loops; the
  cross-block branch of \<^verbatim>\<open>test_twosse2\<close> has no check and needs none, because the index
  \<open>i\<close> of its loop is below \<open>len\<close>.
\<close>

theorem block_scanners_clamp:
  assumes "0 \<le> len" "len \<le> 2 ^ 31 - 17"
  shows
  "(test_pure_sse2 m s len = Some r \<longrightarrow> r = - 127 \<or> r < len) \<and>
   (test_sse2 m s len = Some r \<longrightarrow> r = - 127 \<or> r < len) \<and>
   (test_sse2_and_mycroft4 m s len = Some r \<longrightarrow> r = - 127 \<or> r < len) \<and>
   (test_mycroft4 m s len = Some r \<longrightarrow> r = - 127 \<or> r < len) \<and>
   (test_pure_mycroft4 m s len = Some r \<longrightarrow> r = - 127 \<or> r < len) \<and>
   (test_mycroft m s len = Some r \<longrightarrow> r = - 127 \<or> r < len) \<and>
   (test_pure_mycroft m s len = Some r \<longrightarrow> r = - 127 \<or> r < len) \<and>
   (test_twosse2 m s len = Some r \<longrightarrow> r = - 127 \<or> r + 1 < len) \<and>
   (test_twobsse2 m s len = Some r \<longrightarrow> r = - 127 \<or> r + 1 < len) \<and>
   (test_pure_twobsse2 m s len = Some r \<longrightarrow> r = - 127 \<or> r + 1 < len) \<and>
   (test_mycroft2 m s len = Some r \<longrightarrow> r = - 127 \<or> r + 1 < len) \<and>
   (test_pure_mycroft2 m s len = Some r \<longrightarrow> r = - 127 \<or> r + 1 < len)"
  using test_pure_sse2_clamped [of m s len r] test_sse2_clamped [of m s len r]
    test_sse2_and_mycroft4_clamped [of m s len r] test_mycroft4_clamped [of m s len r]
    test_pure_mycroft4_clamped [of m s len r] test_mycroft_clamped [of m s len r]
    test_pure_mycroft_clamped [of m s len r] test_twosse2_clamped [of m s len r]
    test_twobsse2_clamped [of m s len r] test_pure_twobsse2_clamped [of m s len r]
    test_mycroft2_clamped [of m s len r] test_pure_mycroft2_clamped [of m s len r]
  by blast

text \<open>
  The buffer \<^verbatim>\<open>"aaaa*#aa"\<close> at address 15, so that the block loop of every scanner meets
  the asterisk at index 4 and the hash at index 5. With length 8 every scanner returns 4.
  With length 4 the asterisk is outside the buffer: every single-byte block scanner finds
  it in its block and returns the sentinel. With length 5 the hash is outside the buffer:
  every pair scanner finds the pair in its block and returns the sentinel.
\<close>

theorem block_scanners_clamp_witness:
  "test_pure_sse2 (flat (place 15 (text_bytes ''aaaa*#aa''))) 15 8 = Some 4 \<and>
   test_sse2 (flat (place 15 (text_bytes ''aaaa*#aa''))) 15 8 = Some 4 \<and>
   test_sse2_and_mycroft4 (flat (place 15 (text_bytes ''aaaa*#aa''))) 15 8 = Some 4 \<and>
   test_mycroft4 (flat (place 15 (text_bytes ''aaaa*#aa''))) 15 8 = Some 4 \<and>
   test_pure_mycroft4 (flat (place 15 (text_bytes ''aaaa*#aa''))) 15 8 = Some 4 \<and>
   test_mycroft (flat (place 15 (text_bytes ''aaaa*#aa''))) 15 8 = Some 4 \<and>
   test_pure_mycroft (flat (place 15 (text_bytes ''aaaa*#aa''))) 15 8 = Some 4 \<and>
   test_twosse2 (flat (place 15 (text_bytes ''aaaa*#aa''))) 15 8 = Some 4 \<and>
   test_twobsse2 (flat (place 15 (text_bytes ''aaaa*#aa''))) 15 8 = Some 4 \<and>
   test_pure_twobsse2 (flat (place 15 (text_bytes ''aaaa*#aa''))) 15 8 = Some 4 \<and>
   test_mycroft2 (flat (place 15 (text_bytes ''aaaa*#aa''))) 15 8 = Some 4 \<and>
   test_pure_mycroft2 (flat (place 15 (text_bytes ''aaaa*#aa''))) 15 8 = Some 4 \<and>
   (0::int) \<le> 8 \<and> (8::int) \<le> 2 ^ 31 - 17 \<and> (4::int) < 8 \<and> (4::int) + 1 < 8 \<and>
   test_pure_sse2 (flat (place 15 (text_bytes ''aaaa*#aa''))) 15 4 = Some (- 127) \<and>
   test_sse2 (flat (place 15 (text_bytes ''aaaa*#aa''))) 15 4 = Some (- 127) \<and>
   test_sse2_and_mycroft4 (flat (place 15 (text_bytes ''aaaa*#aa''))) 15 4 = Some (- 127) \<and>
   test_mycroft4 (flat (place 15 (text_bytes ''aaaa*#aa''))) 15 4 = Some (- 127) \<and>
   test_pure_mycroft4 (flat (place 15 (text_bytes ''aaaa*#aa''))) 15 4 = Some (- 127) \<and>
   test_mycroft (flat (place 15 (text_bytes ''aaaa*#aa''))) 15 4 = Some (- 127) \<and>
   test_pure_mycroft (flat (place 15 (text_bytes ''aaaa*#aa''))) 15 4 = Some (- 127) \<and>
   test_twosse2 (flat (place 15 (text_bytes ''aaaa*#aa''))) 15 5 = Some (- 127) \<and>
   test_twobsse2 (flat (place 15 (text_bytes ''aaaa*#aa''))) 15 5 = Some (- 127) \<and>
   test_pure_twobsse2 (flat (place 15 (text_bytes ''aaaa*#aa''))) 15 5 = Some (- 127) \<and>
   test_mycroft2 (flat (place 15 (text_bytes ''aaaa*#aa''))) 15 5 = Some (- 127) \<and>
   test_pure_mycroft2 (flat (place 15 (text_bytes ''aaaa*#aa''))) 15 5 = Some (- 127)"
proof -
  let ?m = "flat (place 15 (text_bytes ''aaaa*#aa''))"
  have found: "test_pure_sse2 ?m 15 8 = Some 4" "test_sse2 ?m 15 8 = Some 4"
    "test_sse2_and_mycroft4 ?m 15 8 = Some 4" "test_mycroft4 ?m 15 8 = Some 4"
    "test_pure_mycroft4 ?m 15 8 = Some 4" "test_mycroft ?m 15 8 = Some 4"
    "test_pure_mycroft ?m 15 8 = Some 4" "test_twosse2 ?m 15 8 = Some 4"
    "test_twobsse2 ?m 15 8 = Some 4" "test_pure_twobsse2 ?m 15 8 = Some 4"
    "test_mycroft2 ?m 15 8 = Some 4" "test_pure_mycroft2 ?m 15 8 = Some 4"
    by code_simp+
  have star_outside: "test_pure_sse2 ?m 15 4 = Some (- 127)" "test_sse2 ?m 15 4 = Some (- 127)"
    "test_sse2_and_mycroft4 ?m 15 4 = Some (- 127)" "test_mycroft4 ?m 15 4 = Some (- 127)"
    "test_pure_mycroft4 ?m 15 4 = Some (- 127)" "test_mycroft ?m 15 4 = Some (- 127)"
    "test_pure_mycroft ?m 15 4 = Some (- 127)"
    by code_simp+
  have hash_outside: "test_twosse2 ?m 15 5 = Some (- 127)" "test_twobsse2 ?m 15 5 = Some (- 127)"
    "test_pure_twobsse2 ?m 15 5 = Some (- 127)" "test_mycroft2 ?m 15 5 = Some (- 127)"
    "test_pure_mycroft2 ?m 15 5 = Some (- 127)"
    by code_simp+
  have "(0::int) \<le> 8" "(8::int) \<le> 2 ^ 31 - 17" by simp_all
  from block_scanners_clamp [OF this, of ?m 15 4] found
  have "(4::int) < 8 \<and> (4::int) + 1 < 8" by simp
  moreover have "(0::int) \<le> 4" "(4::int) \<le> 2 ^ 31 - 17" by simp_all
  from block_scanners_clamp [OF this, of ?m 15 "- 127"] star_outside
  have "test_pure_sse2 ?m 15 4 = Some (- 127) \<and> test_sse2 ?m 15 4 = Some (- 127) \<and>
    test_sse2_and_mycroft4 ?m 15 4 = Some (- 127) \<and> test_mycroft4 ?m 15 4 = Some (- 127) \<and>
    test_pure_mycroft4 ?m 15 4 = Some (- 127) \<and> test_mycroft ?m 15 4 = Some (- 127) \<and>
    test_pure_mycroft ?m 15 4 = Some (- 127)" by simp
  ultimately show ?thesis using found hash_outside by simp
qed

subsection \<open>C10: the cross-block branch of \<^verbatim>\<open>test_twosse2\<close>\<close>

text \<open>
  C10. For every length \<open>0 \<le> len \<le> 2^31 - 17\<close>: whenever \<^verbatim>\<open>test_twosse2\<close> returns through the
  branch of line 175, which returns \<open>i - 1\<close> without a length check, the value \<open>r\<close> it
  returns is a pair match inside the buffer: \<open>0 \<le> r\<close>, \<open>r + 1 < len\<close>, byte \<open>r\<close> is the
  asterisk and byte \<open>r + 1\<close> the hash.
\<close>

theorem twosse2_straddle_return_is_match:
  assumes "0 \<le> len" "len \<le> 2 ^ 31 - 17"
    and "twosse2_returned m s len = Some (Via_straddle r)"
  shows "0 \<le> r \<and> r + 1 < len \<and> bytes m (s + r) = star \<and> bytes m (s + r + 1) = hash"
proof -
  from assms(3) obtain i c where
    pro: "pair_prologue 16 m s len 0 = Some (Aligned i)" and
    i: "i < len - 1" and
    c: "load_byte m (s + (i - 1)) = Some c" and
    loop: "twosse2_loop m s len (push_bit 15 (of_bool (c = star))) i = Some (Via_straddle r)"
    by (auto simp: twosse2_returned_def split: option.splits prologue.splits if_splits)
  from pro i have "1 \<le> i"
    by (auto dest: pair_prologue_Aligned_advances)
  moreover have "bit (push_bit 15 (of_bool (c = star)) :: int) 15 \<longrightarrow> bytes m (s + (i - 1)) = star"
    using c by (auto simp: bit_push_bit_iff dest: load_byte_Some)
  ultimately have "0 \<le> r \<and> r + 1 < len \<and> star_hash_at m s r"
    using loop by (intro twosse2_loop_straddle)
  then show ?thesis by (simp add: star_hash_at_def)
qed

text \<open>
  A buffer at address 15 whose asterisk is the last byte of one 16-byte block (index 16)
  and whose hash is the first byte of the next.
\<close>

theorem twosse2_straddle_return_is_match_witness:
  "(0::int) \<le> 19 \<and> (19::int) \<le> 2 ^ 31 - 17 \<and>
   twosse2_returned (flat (place 15 (text_bytes ''aaaaaaaaaaaaaaaa*#a''))) 15 19
     = Some (Via_straddle 16) \<and>
   (0::int) \<le> 16 \<and> (16::int) + 1 < 19 \<and>
   bytes (flat (place 15 (text_bytes ''aaaaaaaaaaaaaaaa*#a''))) (15 + 16) = star \<and>
   bytes (flat (place 15 (text_bytes ''aaaaaaaaaaaaaaaa*#a''))) (15 + 16 + 1) = hash"
proof -
  let ?m = "flat (place 15 (text_bytes ''aaaaaaaaaaaaaaaa*#a''))"
  have h: "twosse2_returned ?m 15 19 = Some (Via_straddle 16)"
    by code_simp
  have "(0::int) \<le> 19" "(19::int) \<le> 2 ^ 31 - 17" by simp_all
  from twosse2_straddle_return_is_match [OF this h] h show ?thesis
    by simp
qed

subsection \<open>C4: where the scanners load\<close>

text \<open>
  C4, as stated: every load of every scanner lies inside one aligned block that holds a
  byte of the buffer, for every length including 0. This fails in two places. With length
  0 and a base address that is not a multiple of 16, \<^verbatim>\<open>test_pure_sse2\<close> loads the block
  around the base address although no byte of the buffer exists. And the unaligned 8-byte
  load of \<^verbatim>\<open>test_mycroft2\<close> (line 390) starts at the last byte of one aligned block and
  ends in the next.
\<close>

theorem loads_outside_one_covered_block:
  "test_pure_sse2 (guarded (in_block 16 1 0) (\<lambda>a. 0)) 1 0 = None \<and>
   test_mycroft2 (guarded (in_block 8 7 3) (place 7 (text_bytes ''aaa''))) 7 3 = None"
proof
  show "test_pure_sse2 (guarded (in_block 16 1 0) (\<lambda>a. 0)) 1 0 = None"
    by code_simp
  let ?m = "guarded (in_block 8 7 3) (place 7 (text_bytes ''aaa''))"
  have pro: "pair_prologue 8 ?m 7 3 0 = Some (Aligned 1)"
    by code_simp
  have "\<not> in_block 8 7 3 7 8"
    by (auto simp: in_block_def)
  then have "load_uint64 ?m (7 + 1 - 1) = None"
    by (simp add: load_uint64_def load_bytes_def guarded_def)
  then have "mycroft2_loop ?m 7 3 1 = None"
    by (simp add: mycroft2_loop.simps [of ?m 7 3 1])
  with pro show "test_mycroft2 ?m 7 3 = None"
    by (simp add: test_mycroft2_def)
qed

text \<open>
  C4, amended. For every content \<open>f\<close> of the memory, every base address \<open>s\<close> and every
  length \<open>0 \<le> len \<le> 2^31 - 17\<close>, no scanner faults in the memory that permits only the
  loads of \<open>block_load\<close>: a load of \<open>n\<close> bytes (1, 4, 8 or 16) must be one aligned unit of
  \<open>n\<close> bytes holding a byte of the buffer, inside an aligned block of the scanner's block
  size holding a byte of the buffer. So the bytewise and the prologued scanners load
  nothing when the length is 0, and the 4-byte loads of \<^verbatim>\<open>test_sse2_and_mycroft4\<close> are
  aligned 32-bit sections covered by the buffer. The unaligned load of \<^verbatim>\<open>test_mycroft2\<close>
  is the exception: each byte it reads lies in an aligned block of 8 bytes holding a byte
  of the buffer. The pure scanners do the same whenever the length is at least 1 or the
  base address is block-aligned.
\<close>

theorem loads_within_covered_blocks:
  assumes "0 \<le> len" "len \<le> 2 ^ 31 - 17"
  shows
  "test_naive (guarded (block_load 1 s len) f) s len \<noteq> None \<and>
   test_twobyte (guarded (block_load 1 s len) f) s len \<noteq> None \<and>
   test_sse2 (guarded (block_load 16 s len) f) s len \<noteq> None \<and>
   test_sse2_and_mycroft4 (guarded (block_load 16 s len) f) s len \<noteq> None \<and>
   test_mycroft4 (guarded (block_load 4 s len) f) s len \<noteq> None \<and>
   test_mycroft (guarded (block_load 8 s len) f) s len \<noteq> None \<and>
   test_twosse2 (guarded (block_load 16 s len) f) s len \<noteq> None \<and>
   test_twobsse2 (guarded (block_load 16 s len) f) s len \<noteq> None \<and>
   test_mycroft2 (guarded (mycroft2_load s len) f) s len \<noteq> None \<and>
   (1 \<le> len \<or> s mod 16 = 0 \<longrightarrow>
      test_pure_sse2 (guarded (block_load 16 s len) f) s len \<noteq> None \<and>
      test_pure_twobsse2 (guarded (block_load 16 s len) f) s len \<noteq> None) \<and>
   (1 \<le> len \<or> s mod 8 = 0 \<longrightarrow>
      test_pure_mycroft (guarded (block_load 8 s len) f) s len \<noteq> None \<and>
      test_pure_mycroft2 (guarded (block_load 8 s len) f) s len \<noteq> None) \<and>
   (1 \<le> len \<or> s mod 4 = 0 \<longrightarrow>
      test_pure_mycroft4 (guarded (block_load 4 s len) f) s len \<noteq> None)"
  by (intro conjI impI test_naive_safe test_twobyte_safe test_sse2_safe
      test_sse2_and_mycroft4_safe test_mycroft4_safe test_mycroft_safe test_twosse2_safe
      test_twobsse2_safe test_mycroft2_safe test_pure_sse2_safe test_pure_twobsse2_safe
      test_pure_mycroft_safe test_pure_mycroft2_safe test_pure_mycroft4_safe)

text \<open>
  A buffer of 5 bytes at address 3, with the pair at index 2: the pure scanners read the
  aligned block around it, also before address 3, and \<^verbatim>\<open>test_sse2_and_mycroft4\<close> reads the
  32-bit section at address 4; all return the index.
\<close>

theorem loads_within_covered_blocks_witness:
  "(0::int) \<le> 5 \<and> (5::int) \<le> 2 ^ 31 - 17 \<and>
   ((1::int) \<le> 5 \<or> (3::int) mod 16 = 0) \<and> ((1::int) \<le> 5 \<or> (3::int) mod 8 = 0) \<and>
   ((1::int) \<le> 5 \<or> (3::int) mod 4 = 0) \<and>
   test_pure_sse2 (guarded (block_load 16 3 5) (place 3 (text_bytes ''ab*#c''))) 3 5 = Some 2 \<and>
   test_pure_twobsse2 (guarded (block_load 16 3 5) (place 3 (text_bytes ''ab*#c''))) 3 5 = Some 2 \<and>
   test_pure_mycroft (guarded (block_load 8 3 5) (place 3 (text_bytes ''ab*#c''))) 3 5 = Some 2 \<and>
   test_pure_mycroft2 (guarded (block_load 8 3 5) (place 3 (text_bytes ''ab*#c''))) 3 5 = Some 2 \<and>
   test_pure_mycroft4 (guarded (block_load 4 3 5) (place 3 (text_bytes ''ab*#c''))) 3 5 = Some 2 \<and>
   test_sse2_and_mycroft4 (guarded (block_load 16 3 5) (place 3 (text_bytes ''ab*#c''))) 3 5 = Some 2 \<and>
   test_mycroft2 (guarded (mycroft2_load 3 5) (place 3 (text_bytes ''ab*#c''))) 3 5 \<noteq> None \<and>
   test_sse2 (guarded (block_load 16 3 5) (place 3 (text_bytes ''ab*#c''))) 3 5 \<noteq> None"
proof -
  let ?f = "place 3 (text_bytes ''ab*#c'')"
  have e: "test_pure_sse2 (guarded (block_load 16 3 5) ?f) 3 5 = Some 2"
    "test_pure_twobsse2 (guarded (block_load 16 3 5) ?f) 3 5 = Some 2"
    "test_pure_mycroft (guarded (block_load 8 3 5) ?f) 3 5 = Some 2"
    "test_pure_mycroft2 (guarded (block_load 8 3 5) ?f) 3 5 = Some 2"
    "test_pure_mycroft4 (guarded (block_load 4 3 5) ?f) 3 5 = Some 2"
    "test_sse2_and_mycroft4 (guarded (block_load 16 3 5) ?f) 3 5 = Some 2"
    by code_simp+
  have "(0::int) \<le> 5" "(5::int) \<le> 2 ^ 31 - 17" by simp_all
  from loads_within_covered_blocks [OF this, of 3 ?f] e show ?thesis
    by simp
qed

subsection \<open>C3: the lanes the word trick flags\<close>

text \<open>
  C3, as stated: the mask has the top bit of a lane set exactly when that lane of the word
  equals the target. This fails: in the word with bytes \<^verbatim>\<open>'*'\<close>, \<^verbatim>\<open>'+'\<close>, 0, 0 (lowest
  address first) the subtraction borrows out of lane 0 into lane 1, which holds
  \<^verbatim>\<open>'+' = '*' XOR 1\<close>, and lane 1 is flagged although it is not an asterisk.
\<close>

theorem word_trick_flags_other_lane:
  "flagged (word_trick32 0x2b2a star) 1 \<and> lane (0x2b2a :: 32 word) 1 \<noteq> star"
  by code_simp

text \<open>
  C3, amended. For every word and every target byte \<open>t\<close>, in lane \<open>k\<close> of the 32-bit and of
  the 64-bit formula: the top bit is set if and only if the lane holds \<open>t\<close>, or holds
  \<open>t XOR 1\<close> while the lane below it is flagged in the same way (\<open>chain\<close>). Hence every lane
  that holds the target is flagged (no false negative), and the lowest flagged lane, the
  one \<^verbatim>\<open>__builtin_ffs\<close> selects, always holds the target.
\<close>

theorem word_trick_flags:
  fixes w :: "32 word" and v :: "64 word"
  shows
    "(k < 4 \<longrightarrow>
        (flagged (word_trick32 w t) k \<longleftrightarrow> chain w t k) \<and>
        (lane w k = t \<longrightarrow> flagged (word_trick32 w t) k) \<and>
        (lowest_flagged (word_trick32 w t) k \<longrightarrow> lane w k = t)) \<and>
     (k < 8 \<longrightarrow>
        (flagged (word_trick64 v t) k \<longleftrightarrow> chain v t k) \<and>
        (lane v k = t \<longrightarrow> flagged (word_trick64 v t) k) \<and>
        (lowest_flagged (word_trick64 v t) k \<longrightarrow> lane v k = t))"
proof (intro conjI impI)
  assume k: "k < 4"
  then show c: "flagged (word_trick32 w t) k \<longleftrightarrow> chain w t k"
    by (simp add: flagged_def word_trick32_chain)
  show "flagged (word_trick32 w t) k" if "lane w k = t"
    using that c by (cases k) simp_all
  show "lane w k = t" if "lowest_flagged (word_trick32 w t) k"
  proof -
    from that k have "chain w t k" "\<forall>j<k. \<not> chain w t j"
      by (simp_all add: lowest_flagged_def flagged_def word_trick32_chain)
    then show ?thesis by (rule lowest_chain_is_target)
  qed
next
  assume k: "k < 8"
  then show c: "flagged (word_trick64 v t) k \<longleftrightarrow> chain v t k"
    by (simp add: flagged_def word_trick64_chain)
  show "flagged (word_trick64 v t) k" if "lane v k = t"
    using that c by (cases k) simp_all
  show "lane v k = t" if "lowest_flagged (word_trick64 v t) k"
  proof -
    from that k have "chain v t k" "\<forall>j<k. \<not> chain v t j"
      by (simp_all add: lowest_flagged_def flagged_def word_trick64_chain)
    then show ?thesis by (rule lowest_chain_is_target)
  qed
qed

text \<open>
  The words with the bytes \<^verbatim>\<open>"a*+a"\<close> and \<^verbatim>\<open>"a*+aaaaa"\<close>: lane 1 holds the asterisk and is
  the lowest flagged lane.
\<close>

theorem word_trick_flags_witness:
  "(1::nat) < 4 \<and> (1::nat) < 8 \<and>
   lane (0x612b2a61 :: 32 word) 1 = star \<and>
   flagged (word_trick32 0x612b2a61 star) 1 \<and>
   chain (0x612b2a61 :: 32 word) star 1 \<and>
   lowest_flagged (word_trick32 0x612b2a61 star) 1 \<and>
   lane (0x6161616161612b2a61 :: 64 word) 1 = star \<and>
   flagged (word_trick64 0x6161616161612b2a61 star) 1 \<and>
   chain (0x6161616161612b2a61 :: 64 word) star 1 \<and>
   lowest_flagged (word_trick64 0x6161616161612b2a61 star) 1"
proof -
  have e: "lane (0x612b2a61 :: 32 word) 1 = star"
    "lowest_flagged (word_trick32 0x612b2a61 star) 1"
    "lane (0x6161616161612b2a61 :: 64 word) 1 = star"
    "lowest_flagged (word_trick64 0x6161616161612b2a61 star) 1"
    by code_simp+
  from word_trick_flags [of 1 "0x612b2a61" star "0x6161616161612b2a61"] e show ?thesis
    by simp
qed

subsection \<open>C9: the example buffer\<close>

text \<open>
  C9, as stated: on \<^verbatim>\<open>"Now is the time *# for all good men"\<close> the single-byte and the pair
  scan return 17, and the single-byte scan of the first 17 bytes returns the sentinel.
  The buffer has 35 bytes and its asterisk is at index 16: \<^verbatim>\<open>test_naive\<close> and
  \<^verbatim>\<open>test_twobyte\<close> return 16, not 17, and the first 17 bytes contain the asterisk.
\<close>

theorem small_buffer_star_is_at_16:
  "small_length = 35 \<and>
   test_naive (flat (place 0 small)) 0 small_length = Some 16 \<and>
   test_twobyte (flat (place 0 small)) 0 small_length = Some 16 \<and>
   test_naive (flat (place 0 small)) 0 17 = Some 16"
  by code_simp

text \<open>
  C9, amended. In every memory that holds the 35 bytes of the buffer at the indices
  \<open>0 \<le> j < 35\<close> of base address \<open>s\<close>, \<^verbatim>\<open>test_naive\<close> returns 16 and \<^verbatim>\<open>test_twobyte\<close>
  returns 16, and \<^verbatim>\<open>test_naive\<close> on the first 16 bytes returns the sentinel \<open>-127\<close>.
\<close>

theorem small_buffer_results:
  assumes "\<forall>j\<in>{0..<35}. readable m (s + j) 1 \<and> bytes m (s + j) = small ! nat j"
  shows "test_naive m s small_length = Some 16 \<and>
         test_twobyte m s small_length = Some 16 \<and>
         test_naive m s 16 = Some (- 127)"
proof (intro conjI)
  note f = small_facts [OF assms]
  from assms have r35: "\<forall>j\<in>{0..<35}. readable m (s + j) 1" by blast
  then have r16: "\<forall>j\<in>{0..<16}. readable m (s + j) 1" by simp
  have len: "small_length = 35" by (simp add: small_length_35)
  from r35 obtain r where r: "naive_loop m s 35 0 = Some r" "match_result (star_at m s) 35 r"
    using naive_loop_correct [of 35 m s 0] by auto
  have "r = 16" by (rule match_result_unique [OF r(2) _ _ f(2) f(1)]) simp_all
  with r(1) show "test_naive m s small_length = Some 16"
    by (simp add: test_naive_def len)
  from r35 have "\<forall>j\<in>{0..<34 + 1}. readable m (s + j) 1" by simp
  then obtain q where q: "twobyte_loop m s 34 0 = Some q" "match_result (star_hash_at m s) 34 q"
    using twobyte_loop_correct [of 34 m s 0] by auto
  from f(1) have nh: "\<forall>j\<in>{0..<16}. \<not> star_hash_at m s j"
    by (simp add: star_at_def star_hash_at_def)
  have "q = 16" by (rule match_result_unique [OF q(2) _ _ f(3) nh]) simp_all
  with q(1) show "test_twobyte m s small_length = Some 16"
    by (simp add: test_twobyte_def len)
  from r16 obtain p where p: "naive_loop m s 16 0 = Some p" "match_result (star_at m s) 16 p"
    using naive_loop_correct [of 16 m s 0] by auto
  from p(2) f(1) have "p = - 127" by (rule match_result_absent)
  with p(1) show "test_naive m s 16 = Some (- 127)"
    by (simp add: test_naive_def)
qed

theorem small_buffer_results_witness:
  "test_naive (flat (place 5 small)) 5 small_length = Some 16 \<and>
   test_twobyte (flat (place 5 small)) 5 small_length = Some 16 \<and>
   test_naive (flat (place 5 small)) 5 16 = Some (- 127)"
proof -
  have "length small = 35" by code_simp
  then have h: "\<forall>j\<in>{0..<35}. readable (flat (place 5 small)) (5 + j) 1 \<and>
      bytes (flat (place 5 small)) (5 + j) = small ! nat j"
    by (simp add: flat_def place_def)
  from small_buffer_results [OF h] show ?thesis
    by simp
qed

subsection \<open>C1, C2, C5, C8: borrowed flags reach the result\<close>

text \<open>
  C1. The pair scanners built on the word trick do not agree with \<^verbatim>\<open>test_twobyte\<close>. In
  \<^verbatim>\<open>"aaaaaaaa*+#a"\<close> at an 8-aligned address there is no asterisk directly before a hash,
  and \<^verbatim>\<open>test_twobyte\<close> returns the sentinel; \<^verbatim>\<open>test_mycroft2\<close> returns 9, the index of the
  \<^verbatim>\<open>'+'\<close> that follows the asterisk. \<^verbatim>\<open>test_pure_mycroft2\<close> does the same on \<^verbatim>\<open>"*+#a"\<close>.
\<close>

theorem mycroft2_disagrees_with_twobyte:
  "test_mycroft2 (flat (place 0 (text_bytes ''aaaaaaaa*+#a''))) 0 12 = Some 9 \<and>
   test_twobyte (flat (place 0 (text_bytes ''aaaaaaaa*+#a''))) 0 12 = Some (- 127) \<and>
   test_pure_mycroft2 (flat (place 0 (text_bytes ''*+#a''))) 0 4 = Some 1 \<and>
   test_twobyte (flat (place 0 (text_bytes ''*+#a''))) 0 4 = Some (- 127)"
  by code_simp

text \<open>
  C2. The pure single-byte scanners built on the word trick do not agree with
  \<^verbatim>\<open>test_naive\<close>. The buffer is the one byte \<^verbatim>\<open>'+'\<close> at address 1, and the byte before it,
  at address 0, is an asterisk: \<^verbatim>\<open>test_naive\<close> returns the sentinel, \<^verbatim>\<open>test_pure_mycroft4\<close>
  returns 0.
\<close>

theorem pure_mycroft4_disagrees_with_naive:
  "test_pure_mycroft4 (flat (place 0 (text_bytes ''*+''))) 1 1 = Some 0 \<and>
   test_naive (flat (place 0 (text_bytes ''*+''))) 1 1 = Some (- 127)"
  by code_simp

text \<open>
  C5. On \<^verbatim>\<open>"*+#*#"\<close> the smallest index of an asterisk followed by a hash is 3, which
  \<^verbatim>\<open>test_twobyte\<close> returns; \<^verbatim>\<open>test_pure_mycroft2\<close> returns 1, where the byte is \<^verbatim>\<open>'+'\<close>.
\<close>

theorem pure_mycroft2_misses_smallest_index:
  "test_pure_mycroft2 (flat (place 0 (text_bytes ''*+#*#''))) 0 5 = Some 1 \<and>
   test_twobyte (flat (place 0 (text_bytes ''*+#*#''))) 0 5 = Some 3 \<and>
   bytes (flat (place 0 (text_bytes ''*+#*#''))) (0 + 1) \<noteq> star"
  by code_simp

text \<open>
  C8. The buffer is \<^verbatim>\<open>"+a"\<close> at address 1 and holds no asterisk; the byte before it is an
  asterisk. \<^verbatim>\<open>test_pure_mycroft\<close> returns 0, an index in \<open>[0, 2)\<close> that is not a match.
\<close>

theorem pure_mycroft_returns_index_without_match:
  "test_pure_mycroft (flat (place 0 (text_bytes ''*+a''))) 1 2 = Some 0 \<and>
   \<not> star_at (flat (place 0 (text_bytes ''*+a''))) 1 0 \<and>
   \<not> star_at (flat (place 0 (text_bytes ''*+a''))) 1 1 \<and>
   test_naive (flat (place 0 (text_bytes ''*+a''))) 1 2 = Some (- 127)"
  by code_simp

end
